theory Spec2Isabelle
  imports Main "HOL-Library.List_Lexorder"
begin

section \<open>The data model of settrie.py\<close>

text \<open>
  Elements of the stored sets are values of a totally ordered type \<open>'a\<close>. Python's
  \<^verbatim>\<open>None\<close> is not such a value: a field that may hold \<^verbatim>\<open>None\<close> has an option type.
  Ordering comparisons (\<^verbatim>\<open><\<close>, \<^verbatim>\<open>>\<close>, \<^verbatim>\<open>>=\<close>) with \<^verbatim>\<open>None\<close> raise \<^verbatim>\<open>TypeError\<close> in
  Python 3, while \<^verbatim>\<open>==\<close> is defined on every pair of values. \<^verbatim>\<open>ValueError\<close> is raised by
  \<^verbatim>\<open>SortedList.index\<close> only and is caught at each of its uses, so that it is modelled by
  the result \<open>None\<close> of the lookup.
\<close>

datatype py_error = TypeError

definition py_lt :: "'a::linorder option \<Rightarrow> 'a option \<Rightarrow> py_error + bool" where
  "py_lt a b = (case a of None \<Rightarrow> Inl TypeError
                | Some x \<Rightarrow> (case b of None \<Rightarrow> Inl TypeError | Some y \<Rightarrow> Inr (x < y)))"

definition py_gt :: "'a::linorder option \<Rightarrow> 'a option \<Rightarrow> py_error + bool" where
  "py_gt a b = (case a of None \<Rightarrow> Inl TypeError
                | Some x \<Rightarrow> (case b of None \<Rightarrow> Inl TypeError | Some y \<Rightarrow> Inr (x > y)))"

definition py_ge :: "'a::linorder option \<Rightarrow> 'a option \<Rightarrow> py_error + bool" where
  "py_ge a b = (case a of None \<Rightarrow> Inl TypeError
                | Some x \<Rightarrow> (case b of None \<Rightarrow> Inl TypeError | Some y \<Rightarrow> Inr (x \<ge> y)))"

text \<open>
  \<^verbatim>\<open>len(setarr) - 1\<close> is an integer subtraction: it is \<open>-1\<close> on the empty list.
\<close>

definition idx_gt_last :: "nat \<Rightarrow> 'a list \<Rightarrow> bool" where
  "idx_gt_last idx setarr = (int idx > int (length setarr) - 1)"

subsection \<open>The sorted list of children\<close>

text \<open>
  The children of a node are a \<^verbatim>\<open>sortedcontainers.SortedList\<close>, a library outside this
  repository. It is modelled by its contract on a plain list kept in ascending order:
  \<^verbatim>\<open>index(v)\<close> gives the position of the first element equal to \<open>v\<close> and raises
  \<^verbatim>\<open>ValueError\<close> (here: the result \<open>None\<close>) when there is none; \<^verbatim>\<open>add(v)\<close> inserts
  \<open>v\<close> behind the elements that are not greater. Both compare elements with the
  elements' own \<^verbatim>\<open>__lt__\<close> and \<^verbatim>\<open>__eq__\<close>, which are parameters here, and an error of a
  comparison is the error of the operation. \<open>SortedList_add\<close> also returns the
  position of the new element, where the caller goes on to update the object it has
  just inserted.
\<close>

fun SortedList_index ::
  "('n \<Rightarrow> 'n \<Rightarrow> py_error + bool) \<Rightarrow> ('n \<Rightarrow> 'n \<Rightarrow> bool) \<Rightarrow> 'n list \<Rightarrow> 'n \<Rightarrow> py_error + nat option"
where
  "SortedList_index lt eq [] v = Inr None"
| "SortedList_index lt eq (c # cs) v =
    (case lt c v of
       Inl e \<Rightarrow> Inl e
     | Inr True \<Rightarrow> (case SortedList_index lt eq cs v of
                      Inl e \<Rightarrow> Inl e
                    | Inr None \<Rightarrow> Inr None
                    | Inr (Some i) \<Rightarrow> Inr (Some (Suc i)))
     | Inr False \<Rightarrow> if eq c v then Inr (Some 0) else Inr None)"

fun SortedList_add ::
  "('n \<Rightarrow> 'n \<Rightarrow> py_error + bool) \<Rightarrow> 'n list \<Rightarrow> 'n \<Rightarrow> py_error + nat \<times> 'n list"
where
  "SortedList_add lt [] v = Inr (0, [v])"
| "SortedList_add lt (c # cs) v =
    (case lt v c of
       Inl e \<Rightarrow> Inl e
     | Inr True \<Rightarrow> Inr (0, v # c # cs)
     | Inr False \<Rightarrow> (case SortedList_add lt cs v of
                       Inl e \<Rightarrow> Inl e
                     | Inr (j, cs') \<Rightarrow> Inr (Suc j, c # cs')))"

subsection \<open>SetTrie.Node\<close>

datatype 'a node = Node (data: "'a option") (flag_last: bool) (children: "'a node list")

definition Node_init :: "'a option \<Rightarrow> 'a node" where
  "Node_init d = Node d False []"

definition Node_eq :: "'a node \<Rightarrow> 'a node \<Rightarrow> bool" where
  "Node_eq self other = (data self = data other)"

definition Node_lt :: "'a::linorder node \<Rightarrow> 'a node \<Rightarrow> py_error + bool" where
  "Node_lt self other = py_lt (data self) (data other)"

record 'a SetTrie =
  root :: "'a node"

section \<open>SetTrie\<close>

subsection \<open>add and contains\<close>

text \<open>
  The iterator \<^verbatim>\<open>it\<close> over \<^verbatim>\<open>sorted(aset)\<close> is the list of the elements it has not yet
  produced: \<^verbatim>\<open>next(it)\<close> takes the head, \<^verbatim>\<open>StopIteration\<close> is the empty list. The nodes
  of a trie are reachable from their parent only, so the in-place update of a child is
  the update of the parent's list at the child's position.
\<close>

fun SetTrie__add :: "'a::linorder node \<Rightarrow> 'a list \<Rightarrow> py_error + 'a node" where
  "SetTrie__add node [] = Inr (Node (data node) True (children node))"
| "SetTrie__add node (d # it) =
    (case SortedList_index Node_lt Node_eq (children node) (Node_init (Some d)) of
       Inl e \<Rightarrow> Inl e
     | Inr (Some i) \<Rightarrow>
        (case SetTrie__add (children node ! i) it of
           Inl e \<Rightarrow> Inl e
         | Inr nextnode \<Rightarrow>
             Inr (Node (data node) (flag_last node) ((children node)[i := nextnode])))
     | Inr None \<Rightarrow>
        (case SortedList_add Node_lt (children node) (Node_init (Some d)) of
           Inl e \<Rightarrow> Inl e
         | Inr (j, cs) \<Rightarrow>
            (case SetTrie__add (Node_init (Some d)) it of
               Inl e \<Rightarrow> Inl e
             | Inr nextnode \<Rightarrow> Inr (Node (data node) (flag_last node) (cs[j := nextnode])))))"

definition SetTrie_add :: "'a::linorder SetTrie \<Rightarrow> 'a list \<Rightarrow> py_error + 'a SetTrie" where
  "SetTrie_add self aset =
    (case SetTrie__add (root self) (sort aset) of
       Inl e \<Rightarrow> Inl e
     | Inr r \<Rightarrow> Inr (self\<lparr>root := r\<rparr>))"

fun SetTrie_add_all :: "'a::linorder SetTrie \<Rightarrow> 'a list list \<Rightarrow> py_error + 'a SetTrie" where
  "SetTrie_add_all self [] = Inr self"
| "SetTrie_add_all self (s # iterable) =
    (case SetTrie_add self s of
       Inl e \<Rightarrow> Inl e
     | Inr self' \<Rightarrow> SetTrie_add_all self' iterable)"

definition SetTrie_init :: "'a::linorder list list \<Rightarrow> py_error + 'a SetTrie" where
  "SetTrie_init iterable = SetTrie_add_all \<lparr>root = Node_init None\<rparr> iterable"

fun SetTrie__contains :: "'a::linorder node \<Rightarrow> 'a list \<Rightarrow> py_error + bool" where
  "SetTrie__contains node [] = Inr (flag_last node)"
| "SetTrie__contains node (d # it) =
    (case SortedList_index Node_lt Node_eq (children node) (Node_init (Some d)) of
       Inl e \<Rightarrow> Inl e
     | Inr (Some i) \<Rightarrow> SetTrie__contains (children node ! i) it
     | Inr None \<Rightarrow> Inr False)"

definition SetTrie_contains :: "'a::linorder SetTrie \<Rightarrow> 'a list \<Rightarrow> py_error + bool" where
  "SetTrie_contains self aset = SetTrie__contains (root self) (sort aset)"

subsection \<open>hassuperset\<close>

text \<open>
  The \<^verbatim>\<open>for\<close> loop over \<^verbatim>\<open>node.children\<close> is a function of the children still to be
  visited; \<^verbatim>\<open>break\<close> returns the value \<^verbatim>\<open>found\<close> has at that point, which is
  \<^verbatim>\<open>False\<close> at the first \<^verbatim>\<open>break\<close> and \<^verbatim>\<open>True\<close> at the second.
\<close>

fun SetTrie__hassuperset :: "'a::linorder node \<Rightarrow> 'a list \<Rightarrow> nat \<Rightarrow> py_error + bool"
and SetTrie__hassuperset_for :: "'a::linorder node list \<Rightarrow> 'a list \<Rightarrow> nat \<Rightarrow> py_error + bool"
where
  "SetTrie__hassuperset (Node d fl cs) setarr idx =
    (if idx_gt_last idx setarr then Inr True
     else SetTrie__hassuperset_for cs setarr idx)"
| "SetTrie__hassuperset_for [] setarr idx = Inr False"
| "SetTrie__hassuperset_for (child # rest) setarr idx =
    (case py_gt (data child) (Some (setarr ! idx)) of
       Inl e \<Rightarrow> Inl e
     | Inr True \<Rightarrow> Inr False
     | Inr False \<Rightarrow>
        (case (if data child = Some (setarr ! idx)
               then SetTrie__hassuperset child setarr (idx + 1)
               else SetTrie__hassuperset child setarr idx) of
           Inl e \<Rightarrow> Inl e
         | Inr found \<Rightarrow> if found then Inr True else SetTrie__hassuperset_for rest setarr idx))"

definition SetTrie_hassuperset :: "'a::linorder SetTrie \<Rightarrow> 'a list \<Rightarrow> py_error + bool" where
  "SetTrie_hassuperset self aset = SetTrie__hassuperset (root self) (sort aset) 0"

subsection \<open>itersupersets\<close>

text \<open>
  A generator is modelled by the list of the values it yields when it is run to its
  end, which is what \<^verbatim>\<open>list(...)\<close> in \<^verbatim>\<open>supersets\<close> does; an error raised on the way is
  the result. \<^verbatim>\<open>path\<close> is one list shared by all calls: a call appends the node's data
  on entry and pops it on exit, so the calls for the children see the caller's path
  extended by that element and the caller's path is as before once the call is over.
  The model passes the extended path down.
\<close>

definition path_append :: "'a list \<Rightarrow> 'a option \<Rightarrow> 'a list" where
  "path_append path d = (case d of None \<Rightarrow> path | Some x \<Rightarrow> path @ [x])"

fun SetTrie__itersupersets ::
  "'a::linorder node \<Rightarrow> 'a list \<Rightarrow> nat \<Rightarrow> 'a list \<Rightarrow> py_error + 'a set list"
and SetTrie__itersupersets_for ::
  "'a::linorder node list \<Rightarrow> 'a list \<Rightarrow> nat \<Rightarrow> 'a list \<Rightarrow> py_error + 'a set list"
and SetTrie__itersupersets_all ::
  "'a::linorder node list \<Rightarrow> 'a list \<Rightarrow> nat \<Rightarrow> 'a list \<Rightarrow> py_error + 'a set list"
where
  "SetTrie__itersupersets (Node d fl cs) setarr idx path =
    (case (if \<not> idx_gt_last idx setarr
           then SetTrie__itersupersets_for cs setarr idx (path_append path d)
           else SetTrie__itersupersets_all cs setarr idx (path_append path d)) of
       Inl e \<Rightarrow> Inl e
     | Inr ys \<Rightarrow>
         Inr ((if fl \<and> idx_gt_last idx setarr then [set (path_append path d)] else []) @ ys))"
| "SetTrie__itersupersets_for [] setarr idx path = Inr []"
| "SetTrie__itersupersets_for (child # rest) setarr idx path =
    (case py_gt (data child) (Some (setarr ! idx)) of
       Inl e \<Rightarrow> Inl e
     | Inr True \<Rightarrow> Inr []
     | Inr False \<Rightarrow>
        (case (if data child = Some (setarr ! idx)
               then SetTrie__itersupersets child setarr (idx + 1) path
               else SetTrie__itersupersets child setarr idx path) of
           Inl e \<Rightarrow> Inl e
         | Inr ys \<Rightarrow>
            (case SetTrie__itersupersets_for rest setarr idx path of
               Inl e \<Rightarrow> Inl e
             | Inr zs \<Rightarrow> Inr (ys @ zs))))"
| "SetTrie__itersupersets_all [] setarr idx path = Inr []"
| "SetTrie__itersupersets_all (child # rest) setarr idx path =
    (case SetTrie__itersupersets child setarr idx path of
       Inl e \<Rightarrow> Inl e
     | Inr ys \<Rightarrow>
        (case SetTrie__itersupersets_all rest setarr idx path of
           Inl e \<Rightarrow> Inl e
         | Inr zs \<Rightarrow> Inr (ys @ zs)))"

definition SetTrie_itersupersets :: "'a::linorder SetTrie \<Rightarrow> 'a list \<Rightarrow> py_error + 'a set list" where
  "SetTrie_itersupersets self aset = SetTrie__itersupersets (root self) (sort aset) 0 []"

definition SetTrie_supersets :: "'a::linorder SetTrie \<Rightarrow> 'a list \<Rightarrow> py_error + 'a set list" where
  "SetTrie_supersets self aset = SetTrie_itersupersets self aset"

subsection \<open>hassubset\<close>

function SetTrie__hassubset :: "'a::linorder node \<Rightarrow> 'a list \<Rightarrow> nat \<Rightarrow> py_error + bool" where
  "SetTrie__hassubset node setarr idx =
    (if flag_last node then Inr True
     else if idx_gt_last idx setarr then Inr False
     else (case SortedList_index Node_lt Node_eq (children node) (Node_init (Some (setarr ! idx))) of
             Inl e \<Rightarrow> Inl e
           | Inr None \<Rightarrow> SetTrie__hassubset node setarr (idx + 1)
           | Inr (Some c) \<Rightarrow>
              (case SetTrie__hassubset (children node ! c) setarr (idx + 1) of
                 Inl e \<Rightarrow> Inl e
               | Inr found \<Rightarrow>
                   if \<not> found then SetTrie__hassubset node setarr (idx + 1) else Inr True)))"
  by pat_completeness auto
termination
proof (relation "measures [\<lambda>(node, setarr, idx). size node,
                           \<lambda>(node, setarr, idx). length setarr - idx]")
  have index_less: "i < length cs"
    if "SortedList_index lt eq cs v = Inr (Some i)"
    for lt eq and cs :: "'n list" and v i
    using that
    by (induction cs arbitrary: i) (auto split: sum.splits bool.splits option.splits if_splits)
  have size_child: "size (children n ! i) < size n"
    if "i < length (children n)" for n :: "'a node" and i
  proof (cases n)
    case (Node d fl cs)
    from that have "cs ! i \<in> set cs" using Node by simp
    then have "size (cs ! i) \<le> size_list size cs" by (rule size_list_estimation') simp
    then show ?thesis using Node by simp
  qed
  show "((children node ! c, setarr, idx + 1), node, setarr, idx)
      \<in> measures [\<lambda>(node, setarr, idx). size node, \<lambda>(node, setarr, idx). length setarr - idx]"
    if "SortedList_index Node_lt Node_eq (children node) (Node_init (Some (setarr ! idx))) = Inr x2"
      and "x2 = Some c"
    for node :: "'a node" and setarr :: "'a list" and idx x2 c
  proof -
    from that have "SortedList_index Node_lt Node_eq (children node)
        (Node_init (Some (setarr ! idx))) = Inr (Some c)" by simp
    then have "c < length (children node)" by (rule index_less)
    then have "size (children node ! c) < size node" by (rule size_child)
    then show ?thesis by simp
  qed
qed (auto simp: idx_gt_last_def)

definition SetTrie_hassubset :: "'a::linorder SetTrie \<Rightarrow> 'a list \<Rightarrow> py_error + bool" where
  "SetTrie_hassubset self aset = SetTrie__hassubset (root self) (sort aset) 0"

subsection \<open>itersubsets\<close>

text \<open>
  \<^verbatim>\<open>idx\<close> is a local variable that the \<^verbatim>\<open>for\<close> loop over the children changes: the
  value it has after one child is the value the next child starts with. The loop
  function takes it and the \<^verbatim>\<open>while\<close> loop returns it with the sets it yields.
\<close>

function SetTrie__itersubsets ::
  "'a::linorder node \<Rightarrow> 'a list \<Rightarrow> nat \<Rightarrow> 'a list \<Rightarrow> py_error + 'a set list"
and SetTrie__itersubsets_for ::
  "'a::linorder node list \<Rightarrow> 'a list \<Rightarrow> nat \<Rightarrow> 'a list \<Rightarrow> py_error + 'a set list"
and SetTrie__itersubsets_while ::
  "'a::linorder node \<Rightarrow> 'a list \<Rightarrow> nat \<Rightarrow> 'a list \<Rightarrow> py_error + 'a set list \<times> nat"
where
  "SetTrie__itersubsets (Node d fl cs) setarr idx path =
    (case SetTrie__itersubsets_for cs setarr idx (path_append path d) of
       Inl e \<Rightarrow> Inl e
     | Inr ys \<Rightarrow> Inr ((if fl then [set (path_append path d)] else []) @ ys))"
| "SetTrie__itersubsets_for [] setarr idx path = Inr []"
| "SetTrie__itersubsets_for (child # rest) setarr idx path =
    (if idx_gt_last idx setarr then Inr []
     else if data child = Some (setarr ! idx) then
       (case SetTrie__itersubsets child setarr (idx + 1) path of
          Inl e \<Rightarrow> Inl e
        | Inr ys \<Rightarrow>
           (case SetTrie__itersubsets_for rest setarr idx path of
              Inl e \<Rightarrow> Inl e
            | Inr zs \<Rightarrow> Inr (ys @ zs)))
     else
       (case SetTrie__itersubsets_while child setarr (idx + 1) path of
          Inl e \<Rightarrow> Inl e
        | Inr (ys, idx') \<Rightarrow>
           (case SetTrie__itersubsets_for rest setarr idx' path of
              Inl e \<Rightarrow> Inl e
            | Inr zs \<Rightarrow> Inr (ys @ zs))))"
| "SetTrie__itersubsets_while child setarr idx path =
    (if idx < length setarr then
       (case py_ge (data child) (Some (setarr ! idx)) of
          Inl e \<Rightarrow> Inl e
        | Inr False \<Rightarrow> Inr ([], idx)
        | Inr True \<Rightarrow>
            if data child = Some (setarr ! idx) then
              (case SetTrie__itersubsets child setarr idx path of
                 Inl e \<Rightarrow> Inl e
               | Inr ys \<Rightarrow> Inr (ys, idx))
            else SetTrie__itersubsets_while child setarr (idx + 1) path)
     else Inr ([], idx))"
  by pat_completeness auto
termination
proof (relation "measures [
    (\<lambda>x. case x of Inl (node, setarr, idx, path) \<Rightarrow> 2 * size node
                  | Inr (Inl (cs, setarr, idx, path)) \<Rightarrow> 2 * size_list size cs
                  | Inr (Inr (child, setarr, idx, path)) \<Rightarrow> 2 * size child + 1),
    (\<lambda>x. case x of Inl (node, setarr, idx, path) \<Rightarrow> 0
                  | Inr (Inl (cs, setarr, idx, path)) \<Rightarrow> 0
                  | Inr (Inr (child, setarr, idx, path)) \<Rightarrow> length setarr - idx)]")
qed auto

definition SetTrie_itersubsets :: "'a::linorder SetTrie \<Rightarrow> 'a list \<Rightarrow> py_error + 'a set list" where
  "SetTrie_itersubsets self aset = SetTrie__itersubsets (root self) (sort aset) 0 []"

definition SetTrie_subsets :: "'a::linorder SetTrie \<Rightarrow> 'a list \<Rightarrow> py_error + 'a set list" where
  "SetTrie_subsets self aset = SetTrie_itersubsets self aset"

subsection \<open>Iteration\<close>

fun SetTrie__iter :: "'a node \<Rightarrow> 'a list \<Rightarrow> 'a set list"
and SetTrie__iter_for :: "'a node list \<Rightarrow> 'a list \<Rightarrow> 'a set list"
where
  "SetTrie__iter (Node d fl cs) path =
    (if fl then [set (path_append path d)] else []) @ SetTrie__iter_for cs (path_append path d)"
| "SetTrie__iter_for [] path = []"
| "SetTrie__iter_for (child # rest) path = SetTrie__iter child path @ SetTrie__iter_for rest path"

definition SetTrie_iter :: "'a SetTrie \<Rightarrow> 'a set list" where
  "SetTrie_iter self = SetTrie__iter (root self) []"

definition SetTrie_aslist :: "'a SetTrie \<Rightarrow> 'a set list" where
  "SetTrie_aslist self = SetTrie_iter self"

section \<open>SetTrieMap\<close>

text \<open>
  A value stored in the map is any Python object, \<^verbatim>\<open>None\<close> included: values have the
  type \<open>'v option\<close>. \<^verbatim>\<open>SetTrieMap.Node.__init__\<close> ignores its \<^verbatim>\<open>value\<close> argument and
  sets the field to \<^verbatim>\<open>None\<close>. The root of a map is made by \<^verbatim>\<open>SetTrie.Node()\<close>, which
  has no \<^verbatim>\<open>value\<close> attribute until \<^verbatim>\<open>_assign\<close> sets it; the attribute is read only
  where \<^verbatim>\<open>flag_last\<close> holds, and \<^verbatim>\<open>_assign\<close> is the one place that sets \<^verbatim>\<open>flag_last\<close>,
  together with the value, so the missing attribute is never read and \<open>None\<close> stands
  for it.
\<close>

datatype ('a, 'v) mnode =
  MNode (mdata: "'a option") (mflag_last: bool) (mvalue: "'v option")
        (mchildren: "('a, 'v) mnode list")

definition MNode_init :: "'a option \<Rightarrow> ('a, 'v) mnode" where
  "MNode_init d = MNode d False None []"

definition MNode_eq :: "('a, 'v) mnode \<Rightarrow> ('a, 'v) mnode \<Rightarrow> bool" where
  "MNode_eq self other = (mdata self = mdata other)"

definition MNode_lt :: "('a::linorder, 'v) mnode \<Rightarrow> ('a, 'v) mnode \<Rightarrow> py_error + bool" where
  "MNode_lt self other = py_lt (mdata self) (mdata other)"

record ('a, 'v) SetTrieMap =
  mroot :: "('a, 'v) mnode"

fun SetTrieMap__assign ::
  "('a::linorder, 'v) mnode \<Rightarrow> 'a list \<Rightarrow> 'v option \<Rightarrow> py_error + ('a, 'v) mnode"
where
  "SetTrieMap__assign node [] val = Inr (MNode (mdata node) True val (mchildren node))"
| "SetTrieMap__assign node (d # it) val =
    (case SortedList_index MNode_lt MNode_eq (mchildren node) (MNode_init (Some d)) of
       Inl e \<Rightarrow> Inl e
     | Inr (Some i) \<Rightarrow>
        (case SetTrieMap__assign (mchildren node ! i) it val of
           Inl e \<Rightarrow> Inl e
         | Inr nextnode \<Rightarrow>
             Inr (MNode (mdata node) (mflag_last node) (mvalue node)
                    ((mchildren node)[i := nextnode])))
     | Inr None \<Rightarrow>
        (case SortedList_add MNode_lt (mchildren node) (MNode_init (Some d)) of
           Inl e \<Rightarrow> Inl e
         | Inr (j, cs) \<Rightarrow>
            (case SetTrieMap__assign (MNode_init (Some d)) it val of
               Inl e \<Rightarrow> Inl e
             | Inr nextnode \<Rightarrow>
                 Inr (MNode (mdata node) (mflag_last node) (mvalue node) (cs[j := nextnode])))))"

definition SetTrieMap_assign ::
  "('a::linorder, 'v) SetTrieMap \<Rightarrow> 'a list \<Rightarrow> 'v option \<Rightarrow> py_error + ('a, 'v) SetTrieMap"
where
  "SetTrieMap_assign self akey avalue =
    (case SetTrieMap__assign (mroot self) (sort akey) avalue of
       Inl e \<Rightarrow> Inl e
     | Inr r \<Rightarrow> Inr (self\<lparr>mroot := r\<rparr>))"

fun SetTrieMap_assign_all ::
  "('a::linorder, 'v) SetTrieMap \<Rightarrow> ('a list \<times> 'v option) list \<Rightarrow> py_error + ('a, 'v) SetTrieMap"
where
  "SetTrieMap_assign_all self [] = Inr self"
| "SetTrieMap_assign_all self ((key, val) # iterable) =
    (case SetTrieMap_assign self key val of
       Inl e \<Rightarrow> Inl e
     | Inr self' \<Rightarrow> SetTrieMap_assign_all self' iterable)"

definition SetTrieMap_init ::
  "('a::linorder list \<times> 'v option) list \<Rightarrow> py_error + ('a, 'v) SetTrieMap"
where
  "SetTrieMap_init iterable = SetTrieMap_assign_all \<lparr>mroot = MNode_init None\<rparr> iterable"

fun SetTrieMap__get ::
  "('a::linorder, 'v) mnode \<Rightarrow> 'a list \<Rightarrow> 'v option \<Rightarrow> py_error + 'v option"
where
  "SetTrieMap__get node [] dflt = Inr (if mflag_last node then mvalue node else dflt)"
| "SetTrieMap__get node (d # it) dflt =
    (case SortedList_index MNode_lt MNode_eq (mchildren node) (MNode_init (Some d)) of
       Inl e \<Rightarrow> Inl e
     | Inr (Some i) \<Rightarrow> SetTrieMap__get (mchildren node ! i) it dflt
     | Inr None \<Rightarrow> Inr dflt)"

definition SetTrieMap_get ::
  "('a::linorder, 'v) SetTrieMap \<Rightarrow> 'a list \<Rightarrow> 'v option \<Rightarrow> py_error + 'v option"
where
  "SetTrieMap_get self keyset dflt = SetTrieMap__get (mroot self) (sort keyset) dflt"

fun SetTrieMap__hassuperset :: "('a::linorder, 'v) mnode \<Rightarrow> 'a list \<Rightarrow> nat \<Rightarrow> py_error + bool"
and SetTrieMap__hassuperset_for ::
  "('a::linorder, 'v) mnode list \<Rightarrow> 'a list \<Rightarrow> nat \<Rightarrow> py_error + bool"
where
  "SetTrieMap__hassuperset (MNode d fl v cs) setarr idx =
    (if idx_gt_last idx setarr then Inr True
     else SetTrieMap__hassuperset_for cs setarr idx)"
| "SetTrieMap__hassuperset_for [] setarr idx = Inr False"
| "SetTrieMap__hassuperset_for (child # rest) setarr idx =
    (case py_gt (mdata child) (Some (setarr ! idx)) of
       Inl e \<Rightarrow> Inl e
     | Inr True \<Rightarrow> Inr False
     | Inr False \<Rightarrow>
        (case (if mdata child = Some (setarr ! idx)
               then SetTrieMap__hassuperset child setarr (idx + 1)
               else SetTrieMap__hassuperset child setarr idx) of
           Inl e \<Rightarrow> Inl e
         | Inr found \<Rightarrow>
             if found then Inr True else SetTrieMap__hassuperset_for rest setarr idx))"

definition SetTrieMap_hassuperset ::
  "('a::linorder, 'v) SetTrieMap \<Rightarrow> 'a list \<Rightarrow> py_error + bool"
where
  "SetTrieMap_hassuperset self aset = SetTrieMap__hassuperset (mroot self) (sort aset) 0"

text \<open>
  What an iteration over a map yields depends on \<^verbatim>\<open>mode\<close>: the key set, the value, or
  the pair of both. \<^verbatim>\<open>mode\<close> is a string or \<^verbatim>\<open>None\<close>.
\<close>

datatype ('a, 'v) item = Key "'a set" | Val "'v option" | Pair "'a set" "'v option"

definition yield_item :: "string option \<Rightarrow> 'a list \<Rightarrow> 'v option \<Rightarrow> ('a, 'v) item" where
  "yield_item mode path v =
    (if mode = Some ''keys'' then Key (set path)
     else if mode = Some ''values'' then Val v
     else Pair (set path) v)"

fun SetTrieMap__iter :: "('a, 'v) mnode \<Rightarrow> 'a list \<Rightarrow> string option \<Rightarrow> ('a, 'v) item list"
and SetTrieMap__iter_for ::
  "('a, 'v) mnode list \<Rightarrow> 'a list \<Rightarrow> string option \<Rightarrow> ('a, 'v) item list"
where
  "SetTrieMap__iter (MNode d fl v cs) path mode =
    (if fl then [yield_item mode (path_append path d) v] else [])
    @ SetTrieMap__iter_for cs (path_append path d) mode"
| "SetTrieMap__iter_for [] path mode = []"
| "SetTrieMap__iter_for (child # rest) path mode =
    SetTrieMap__iter child path mode @ SetTrieMap__iter_for rest path mode"

definition SetTrieMap_iter :: "('a, 'v) SetTrieMap \<Rightarrow> string option \<Rightarrow> ('a, 'v) item list" where
  "SetTrieMap_iter self mode = SetTrieMap__iter (mroot self) [] mode"

definition SetTrieMap_keys :: "('a, 'v) SetTrieMap \<Rightarrow> ('a, 'v) item list" where
  "SetTrieMap_keys self = SetTrieMap_iter self (Some ''keys'')"

section \<open>Verification\<close>

text \<open>
  The definitions of this section are not part of the program: they say what a trie
  holds and which tries the operations build. \<open>below n\<close> lists the element sequences
  that lead from the node \<open>n\<close> to the nodes with \<open>flag_last\<close> in its subtree, \<open>paths n\<close>
  the same sequences with the data of \<open>n\<close> itself in front. \<open>trie_inv\<close> is the shape
  every trie built by \<open>SetTrie__add\<close> has: each child carries data, the data of the
  children of a node ascend strictly, and they are greater than the data of the node.
\<close>

definition key :: "'a node \<Rightarrow> 'a" where
  "key c = the (data c)"

fun paths :: "'a node \<Rightarrow> 'a list list" where
  "paths (Node d fl cs) =
     map (\<lambda>p. path_append [] d @ p) ((if fl then [[]] else []) @ concat (map paths cs))"

definition below :: "'a node \<Rightarrow> 'a list list" where
  "below n = (if flag_last n then [[]] else []) @ concat (map paths (children n))"

fun trie_inv :: "'a::linorder node \<Rightarrow> bool" where
  "trie_inv (Node d fl cs) =
     ((\<forall>c\<in>set cs. trie_inv c \<and> data c \<noteq> None \<and> (\<forall>x. d = Some x \<longrightarrow> x < key c))
      \<and> sorted_wrt (<) (map key cs))"

definition SetTrie_inv :: "'a::linorder SetTrie \<Rightarrow> bool" where
  "SetTrie_inv t = (trie_inv (root t) \<and> data (root t) = None)"

definition stored :: "'a::linorder SetTrie \<Rightarrow> 'a list set" where
  "stored t = set (below (root t))"

definition sup_sel :: "'a list \<Rightarrow> 'a list list \<Rightarrow> 'a list list" where
  "sup_sel q ps = filter (\<lambda>p. set q \<subseteq> set p) ps"

definition emit :: "'a list \<Rightarrow> 'a list list \<Rightarrow> 'a set list" where
  "emit path ps = map (\<lambda>p. set (path @ p)) ps"

fun erase :: "('a, 'v) mnode \<Rightarrow> 'a node" where
  "erase (MNode d fl v cs) = Node d fl (map erase cs)"

fun mpaths :: "('a, 'v) mnode \<Rightarrow> ('a list \<times> 'v option) list" where
  "mpaths (MNode d fl v cs) =
     map (\<lambda>(p, w). (path_append [] d @ p, w))
       ((if fl then [([], v)] else []) @ concat (map mpaths cs))"

definition mbelow :: "('a, 'v) mnode \<Rightarrow> ('a list \<times> 'v option) list" where
  "mbelow n = (if mflag_last n then [([], mvalue n)] else []) @ concat (map mpaths (mchildren n))"

definition SetTrieMap_inv :: "('a::linorder, 'v) SetTrieMap \<Rightarrow> bool" where
  "SetTrieMap_inv m = (trie_inv (erase (mroot m)) \<and> mdata (mroot m) = None)"

definition mstored :: "('a::linorder, 'v) SetTrieMap \<Rightarrow> 'a list set" where
  "mstored m = set (below (erase (mroot m)))"

definition test_trie :: "nat SetTrie" where
  "test_trie = \<lparr>root =
     Node None False
       [Node (Some 1) False
          [Node (Some 2) False [Node (Some 4) True []],
           Node (Some 3) True [Node (Some 5) True []],
           Node (Some 4) True []],
        Node (Some 2) False
          [Node (Some 3) False [Node (Some 5) True []],
           Node (Some 4) True []]]\<rparr>"

lemma SortedList_index_Some:
  "SortedList_index lt eq cs v = Inr (Some i) \<Longrightarrow> i < length cs \<and> eq (cs ! i) v"
  by (induction cs arbitrary: i) (auto split: sum.splits bool.splits option.splits if_splits)

lemma SortedList_index_keys:
  fixes k :: "'n \<Rightarrow> 'b::linorder"
  assumes "\<forall>c\<in>set cs. lt c v = Inr (k c < k v) \<and> eq c v = (k c = k v)"
    and "sorted_wrt (<) (map k cs)"
  shows "\<exists>r. SortedList_index lt eq cs v = Inr r \<and> (r = None \<longrightarrow> k v \<notin> k ` set cs)"
  using assms
proof (induction cs)
  case Nil
  then show ?case by simp
next
  case (Cons c cs)
  have c: "lt c v = Inr (k c < k v)" "eq c v = (k c = k v)" using Cons.prems(1) by simp_all
  have srt: "\<forall>x\<in>set cs. k c < k x" using Cons.prems(2) by simp
  from Cons obtain r where r: "SortedList_index lt eq cs v = Inr r" "r = None \<longrightarrow> k v \<notin> k ` set cs"
    by auto
  show ?case
  proof (cases "k c < k v")
    case True
    then show ?thesis using c r by (cases r) auto
  next
    case False
    show ?thesis
    proof (cases "k c = k v")
      case True
      then show ?thesis using c by simp
    next
      case ne: False
      with False have "k v < k c" by simp
      then have "k v \<notin> k ` set (c # cs)" using srt by auto
      moreover have "SortedList_index lt eq (c # cs) v = Inr None" using c False ne by simp
      ultimately show ?thesis by blast
    qed
  qed
qed

lemma SortedList_add_keys:
  fixes k :: "'n \<Rightarrow> 'b::linorder"
  assumes "\<forall>c\<in>set cs. lt v c = Inr (k v < k c)"
    and "sorted_wrt (<) (map k cs)" and "k v \<notin> k ` set cs"
  shows "\<exists>j. SortedList_add lt cs v = Inr (j, take j cs @ v # drop j cs) \<and> j \<le> length cs
             \<and> sorted_wrt (<) (map k (take j cs @ v # drop j cs))"
  using assms
proof (induction cs)
  case Nil
  then show ?case by simp
next
  case (Cons c cs)
  have c: "lt v c = Inr (k v < k c)" using Cons.prems(1) by simp
  have srt: "\<forall>x\<in>set cs. k c < k x" "sorted_wrt (<) (map k cs)" using Cons.prems(2) by simp_all
  show ?case
  proof (cases "k v < k c")
    case True
    then have "SortedList_add lt (c # cs) v = Inr (0, take 0 (c # cs) @ v # drop 0 (c # cs))"
      using c by simp
    moreover have "sorted_wrt (<) (map k (take 0 (c # cs) @ v # drop 0 (c # cs)))"
      using srt True by auto
    ultimately show ?thesis by blast
  next
    case False
    then have lt: "k c < k v" using Cons.prems(3) by auto
    from Cons obtain j where j: "SortedList_add lt cs v = Inr (j, take j cs @ v # drop j cs)"
      "j \<le> length cs" "sorted_wrt (<) (map k (take j cs @ v # drop j cs))"
      by auto
    have "SortedList_add lt (c # cs) v = Inr (Suc j, take (Suc j) (c # cs) @ v # drop (Suc j) (c # cs))"
      using c False j(1) by simp
    moreover have "sorted_wrt (<) (map k (take (Suc j) (c # cs) @ v # drop (Suc j) (c # cs)))"
    proof -
      have "\<forall>x\<in>set (take j cs @ v # drop j cs). k c < k x"
        using srt lt by (auto dest!: in_set_takeD in_set_dropD)
      then show ?thesis using j(3) by auto
    qed
    ultimately show ?thesis using j(2) by (intro exI[of _ "Suc j"]) simp
  qed
qed

lemma Node_cmp [simp]:
  "data c = Some x \<Longrightarrow> Node_lt c (Node_init (Some d)) = Inr (x < d)"
  "data c = Some x \<Longrightarrow> Node_lt (Node_init (Some d)) c = Inr (d < x)"
  "Node_eq c (Node_init (Some d)) = (data c = Some d)"
  by (auto simp: Node_lt_def Node_eq_def Node_init_def py_lt_def)

lemma key_Node_init [simp]: "key (Node_init (Some d)) = d" "data (Node_init d') = d'"
  "flag_last (Node_init d') = False" "children (Node_init d') = []"
  by (simp_all add: key_def Node_init_def)

lemma Node_index:
  assumes "\<forall>c\<in>set cs. data c \<noteq> None" and "sorted_wrt (<) (map key cs)"
  shows "\<exists>r. SortedList_index Node_lt Node_eq cs (Node_init (Some d)) = Inr r \<and>
           (case r of None \<Rightarrow> \<forall>c\<in>set cs. data c \<noteq> Some d
            | Some i \<Rightarrow> i < length cs \<and> data (cs ! i) = Some d)"
proof -
  have "\<forall>c\<in>set cs. Node_lt c (Node_init (Some d)) = Inr (key c < key (Node_init (Some d)))
          \<and> Node_eq c (Node_init (Some d)) = (key c = key (Node_init (Some d)))"
    using assms(1) by (auto simp: key_def)
  from SortedList_index_keys[of cs Node_lt "Node_init (Some d)" key Node_eq, OF this assms(2)]
  obtain r where r: "SortedList_index Node_lt Node_eq cs (Node_init (Some d)) = Inr r"
    "r = None \<longrightarrow> d \<notin> key ` set cs" by auto
  show ?thesis
  proof (cases r)
    case None
    then have "\<forall>c\<in>set cs. data c \<noteq> Some d" using r(2) by (force simp: key_def)
    then show ?thesis using r None by simp
  next
    case (Some i)
    then show ?thesis
      using r SortedList_index_Some[of Node_lt Node_eq cs "Node_init (Some d)" i] by simp
  qed
qed

lemma Node_add:
  assumes "\<forall>c\<in>set cs. data c \<noteq> None" and "sorted_wrt (<) (map key cs)"
    and "\<forall>c\<in>set cs. data c \<noteq> Some d"
  shows "\<exists>j. SortedList_add Node_lt cs (Node_init (Some d))
               = Inr (j, take j cs @ Node_init (Some d) # drop j cs) \<and> j \<le> length cs
             \<and> sorted_wrt (<) (map key (take j cs @ Node_init (Some d) # drop j cs))"
proof -
  have "\<forall>c\<in>set cs. Node_lt (Node_init (Some d)) c = Inr (key (Node_init (Some d)) < key c)"
    using assms(1) by (auto simp: key_def)
  moreover have "key (Node_init (Some d)) \<notin> key ` set cs"
    using assms(1,3) by (auto simp: key_def)
  ultimately show ?thesis
    using SortedList_add_keys[of cs Node_lt "Node_init (Some d)" key] assms(2) by blast
qed

lemma paths_below: "paths n = map ((@) (path_append [] (data n))) (below n)"
  by (cases n) (simp add: below_def)

lemma set_below:
  "set (below n) = (if flag_last n then {[]} else {}) \<union> (\<Union>c\<in>set (children n). set (paths c))"
  by (simp add: below_def)

lemma set_paths_Some: "data c = Some d \<Longrightarrow> set (paths c) = (#) d ` set (below c)"
  by (simp add: paths_below path_append_def)

lemma trie_inv_sel:
  "trie_inv n \<longleftrightarrow>
     (\<forall>c\<in>set (children n). trie_inv c \<and> data c \<noteq> None \<and> (\<forall>x. data n = Some x \<longrightarrow> x < key c))
     \<and> sorted_wrt (<) (map key (children n))"
  by (cases n) simp

lemma trie_inv_Node_init [simp]: "trie_inv (Node_init d)"
  by (simp add: Node_init_def)

lemma below_Node_init [simp]: "below (Node_init d) = []"
  by (simp add: below_def)

lemma add_correct:
  "trie_inv n \<Longrightarrow> sorted_wrt (<) it \<Longrightarrow> (\<forall>x. data n = Some x \<longrightarrow> (\<forall>y\<in>set it. x < y)) \<Longrightarrow>
   \<exists>n'. SetTrie__add n it = Inr n' \<and> trie_inv n' \<and> data n' = data n
        \<and> set (below n') = insert it (set (below n))"
proof (induction n it rule: SetTrie__add.induct)
  case (1 node)
  let ?n' = "Node (data node) True (children node)"
  have "trie_inv ?n'" using "1.prems"(1) trie_inv_sel[of node] by simp
  moreover have "set (below ?n') = insert [] (set (below node))" by (auto simp: set_below)
  ultimately show ?case by simp
next
  case (2 node d it)
  let ?cs = "children node"
  have inv: "\<forall>c\<in>set ?cs. trie_inv c \<and> data c \<noteq> None \<and> (\<forall>x. data node = Some x \<longrightarrow> x < key c)"
    and srt: "sorted_wrt (<) (map key ?cs)"
    using "2.prems"(1) trie_inv_sel[of node] by simp_all
  have it: "sorted_wrt (<) it" "\<forall>y\<in>set it. d < y" and lb: "\<forall>x. data node = Some x \<longrightarrow> x < d"
    using "2.prems"(2,3) by auto
  from Node_index[of ?cs d] inv srt
  obtain r where r: "SortedList_index Node_lt Node_eq ?cs (Node_init (Some d)) = Inr r"
    and r': "case r of None \<Rightarrow> \<forall>c\<in>set ?cs. data c \<noteq> Some d
             | Some i \<Rightarrow> i < length ?cs \<and> data (?cs ! i) = Some d"
    by blast
  show ?case
  proof (cases r)
    case (Some i)
    then have i: "i < length ?cs" "data (?cs ! i) = Some d" using r' by simp_all
    then have mem: "?cs ! i \<in> set ?cs" by simp
    have "\<exists>n'. SetTrie__add (?cs ! i) it = Inr n' \<and> trie_inv n' \<and> data n' = data (?cs ! i)
        \<and> set (below n') = insert it (set (below (?cs ! i)))"
      using "2.IH"(2)[OF r Some] inv mem it i(2) by simp
    then obtain c' where c': "SetTrie__add (?cs ! i) it = Inr c'" "trie_inv c'" "data c' = Some d"
      "set (below c') = insert it (set (below (?cs ! i)))"
      using i(2) by auto
    let ?n' = "Node (data node) (flag_last node) (?cs[i := c'])"
    have res: "SetTrie__add node (d # it) = Inr ?n'" using r Some c'(1) by simp
    have keys: "map key (?cs[i := c']) = map key ?cs"
      using i c'(3) by (simp add: map_update key_def list_update_same_conv)
    have "\<forall>c\<in>set (?cs[i := c']). c = c' \<or> c \<in> set ?cs"
      using set_update_subset_insert[of ?cs i c'] by auto
    moreover have "\<forall>x. data node = Some x \<longrightarrow> x < key c'"
      using lb c'(3) by (simp add: key_def)
    ultimately have inv': "trie_inv ?n'"
      using inv c'(2,3) srt keys by auto
    have pc': "set (paths c') = insert (d # it) (set (paths (?cs ! i)))"
      using c'(3,4) i(2) by (simp add: set_paths_Some)
    have "(\<Union>c\<in>set (?cs[i := c']). set (paths c)) = insert (d # it) (\<Union>c\<in>set ?cs. set (paths c))"
    proof -
      have a: "?cs[i := c'] = take i ?cs @ c' # drop (Suc i) ?cs"
        using i(1) by (rule upd_conv_take_nth_drop)
      have b: "?cs = take i ?cs @ ?cs ! i # drop (Suc i) ?cs"
        using i(1) by (rule id_take_nth_drop)
      have "(\<Union>c\<in>set (?cs[i := c']). set (paths c))
            = (\<Union>c\<in>set (take i ?cs). set (paths c)) \<union> set (paths c')
              \<union> (\<Union>c\<in>set (drop (Suc i) ?cs). set (paths c))"
        by (subst a) auto
      also have "\<dots> = insert (d # it) ((\<Union>c\<in>set (take i ?cs). set (paths c)) \<union> set (paths (?cs ! i))
              \<union> (\<Union>c\<in>set (drop (Suc i) ?cs). set (paths c)))"
        using pc' by auto
      also have "(\<Union>c\<in>set (take i ?cs). set (paths c)) \<union> set (paths (?cs ! i))
              \<union> (\<Union>c\<in>set (drop (Suc i) ?cs). set (paths c)) = (\<Union>c\<in>set ?cs. set (paths c))"
        by (subst (4) b) auto
      finally show ?thesis .
    qed
    then have "set (below ?n') = insert (d # it) (set (below node))"
      by (simp add: set_below)
    then show ?thesis using res inv' by simp
  next
    case None
    then have nf: "\<forall>c\<in>set ?cs. data c \<noteq> Some d" using r' by simp
    from Node_add[of ?cs d] inv srt nf
    obtain j where j: "SortedList_add Node_lt ?cs (Node_init (Some d))
          = Inr (j, take j ?cs @ Node_init (Some d) # drop j ?cs)" "j \<le> length ?cs"
        "sorted_wrt (<) (map key (take j ?cs @ Node_init (Some d) # drop j ?cs))"
      by blast
    have "\<exists>n'. SetTrie__add (Node_init (Some d)) it = Inr n' \<and> trie_inv n'
        \<and> data n' = data (Node_init (Some d))
        \<and> set (below n') = insert it (set (below (Node_init (Some d))))"
      using "2.IH"(1)[OF r None j(1) refl] it by simp
    then obtain c' where c': "SetTrie__add (Node_init (Some d)) it = Inr c'" "trie_inv c'"
      "data c' = Some d" "set (below c') = {it}"
      by auto
    let ?cs' = "take j ?cs @ c' # drop j ?cs"
    let ?n' = "Node (data node) (flag_last node) ?cs'"
    have upd: "(take j ?cs @ Node_init (Some d) # drop j ?cs)[j := c'] = ?cs'"
      using j(2) list_update_length[of "take j ?cs" "Node_init (Some d)" "drop j ?cs" c'] by simp
    have res: "SetTrie__add node (d # it) = Inr ?n'" using r None j(1) c'(1) upd by simp
    have keys: "map key ?cs' = map key (take j ?cs @ Node_init (Some d) # drop j ?cs)"
      using c'(3) by (simp add: key_def)
    have sets: "set ?cs' = insert c' (set ?cs)"
    proof -
      have "set (take j ?cs) \<union> set (drop j ?cs) = set (take j ?cs @ drop j ?cs)"
        by (simp only: set_append)
      also have "\<dots> = set ?cs" by (simp only: append_take_drop_id)
      finally show ?thesis by simp
    qed
    have "\<forall>x. data node = Some x \<longrightarrow> x < key c'" using lb c'(3) by (simp add: key_def)
    then have inv': "trie_inv ?n'"
      using inv c'(2,3) j(3) keys sets by auto
    have "set (paths c') = {d # it}" using c'(3,4) by (simp add: set_paths_Some)
    then have "set (below ?n') = insert (d # it) (set (below node))"
      using sets by (auto simp: set_below)
    then show ?thesis using res inv' by simp
  qed
qed

lemma below_paths:
  assumes "trie_inv n" and "p \<in> set (below n)"
  shows "sorted_wrt (<) p \<and> (\<forall>x. data n = Some x \<longrightarrow> (\<forall>y\<in>set p. x < y))"
  using assms
proof (induction n arbitrary: p)
  case (Node d fl cs)
  show ?case
  proof (cases "p = []")
    case True
    then show ?thesis by simp
  next
    case False
    then obtain c where c: "c \<in> set cs" "p \<in> set (paths c)"
      using Node.prems(2) by (auto simp: set_below split: if_splits)
    then have inv: "trie_inv c" "data c \<noteq> None" "\<forall>x. d = Some x \<longrightarrow> x < key c"
      using Node.prems(1) by auto
    then obtain k where k: "data c = Some k" by auto
    then obtain q where q: "p = k # q" "q \<in> set (below c)"
      using c(2) by (auto simp: set_paths_Some)
    from Node.IH[OF c(1) inv(1) q(2)] k
    have "sorted_wrt (<) q" "\<forall>y\<in>set q. k < y" by auto
    moreover have "\<forall>x. d = Some x \<longrightarrow> x < k" using inv(3) k by (simp add: key_def)
    ultimately show ?thesis using q(1) by auto
  qed
qed

lemma paths_head:
  assumes "data c = Some k" and "p \<in> set (paths c)"
  shows "\<exists>q. p = k # q \<and> q \<in> set (below c)"
  using assms by (auto simp: set_paths_Some)

lemma sorted_paths_child:
  fixes c :: "'a::linorder node"
  assumes "sorted_wrt (<) (below c)" and "data c = Some k"
  shows "sorted_wrt (<) (paths c)"
  using assms by (simp add: paths_below path_append_def sorted_wrt_map)

lemma sorted_concat_paths:
  assumes "\<forall>c\<in>set cs. data c \<noteq> None \<and> sorted_wrt (<) (paths c)"
    and "sorted_wrt (<) (map key cs)"
  shows "sorted_wrt (<) (concat (map paths cs))"
  using assms
proof (induction cs)
  case Nil
  then show ?case by simp
next
  case (Cons c cs)
  have "p < p'" if a: "p \<in> set (paths c)" and b: "c' \<in> set cs" and c: "p' \<in> set (paths c')"
    for p p' c'
  proof -
    obtain k k' where k: "data c = Some k" "data c' = Some k'" using Cons.prems(1) b by auto
    then have "k < k'" using Cons.prems(2) b by (auto simp: key_def)
    moreover obtain q q' where "p = k # q" "p' = k' # q'"
      using paths_head[OF k(1) a] paths_head[OF k(2) c] by auto
    ultimately show ?thesis by simp
  qed
  then show ?case using Cons by (auto simp: sorted_wrt_append)
qed

lemma sorted_below: "trie_inv n \<Longrightarrow> sorted_wrt (<) (below n)"
proof (induction n)
  case (Node d fl cs)
  have ch: "\<forall>c\<in>set cs. trie_inv c \<and> data c \<noteq> None" and srt: "sorted_wrt (<) (map key cs)"
    using Node.prems by auto
  have "\<forall>c\<in>set cs. data c \<noteq> None \<and> sorted_wrt (<) (paths c)"
  proof
    fix c assume c: "c \<in> set cs"
    then obtain k where "data c = Some k" using ch by auto
    then show "data c \<noteq> None \<and> sorted_wrt (<) (paths c)"
      using sorted_paths_child[of c k] Node.IH[OF c] ch c by simp
  qed
  then have s: "sorted_wrt (<) (concat (map paths cs))" using srt by (rule sorted_concat_paths)
  have "[] < p" if a: "c \<in> set cs" and b: "p \<in> set (paths c)" for c p
  proof -
    obtain k where "data c = Some k" using ch a by auto
    then show ?thesis using paths_head[OF _ b] by auto
  qed
  then show ?case using s by (auto simp: below_def sorted_wrt_append)
qed

lemma iter_paths:
  "SetTrie__iter n path = map (\<lambda>p. set (path @ p)) (paths n)"
  "SetTrie__iter_for cs path = map (\<lambda>p. set (path @ p)) (concat (map paths cs))"
proof (induction n path and cs path rule: SetTrie__iter_SetTrie__iter_for.induct)
  case (1 d fl cs path)
  then show ?case by (cases d) (simp_all add: path_append_def comp_def)
next
  case (2 path)
  then show ?case by simp
next
  case (3 child rest path)
  then show ?case by simp
qed

lemma key_unique:
  fixes cs :: "'a::linorder node list"
  assumes "sorted_wrt (<) (map key cs)" and "c \<in> set cs" and "c' \<in> set cs"
    and "data c = Some k" and "data c' = Some k"
  shows "c = c'"
proof -
  have "distinct (map key cs)" using assms(1) by (simp add: strict_sorted_iff)
  then have "inj_on key (set cs)" by (simp add: distinct_map)
  moreover have "key c = key c'" using assms(4,5) by (simp add: key_def)
  ultimately show ?thesis using assms(2,3) by (rule inj_onD)
qed

lemma Cons_in_below:
  fixes n :: "'a::linorder node"
  assumes "sorted_wrt (<) (map key (children n))" and "\<forall>c\<in>set (children n). data c \<noteq> None"
    and "c \<in> set (children n)" and "data c = Some d"
  shows "d # it \<in> set (below n) \<longleftrightarrow> it \<in> set (below c)"
proof
  assume "d # it \<in> set (below n)"
  then obtain c' where c': "c' \<in> set (children n)" "d # it \<in> set (paths c')"
    by (auto simp: set_below split: if_splits)
  then obtain k where k: "data c' = Some k" using assms(2) by auto
  with c'(2) have "k = d" "it \<in> set (below c')" by (auto simp: set_paths_Some)
  moreover have "c' = c" using key_unique[OF assms(1) c'(1) assms(3)] k assms(4) \<open>k = d\<close> by simp
  ultimately show "it \<in> set (below c)" by simp
next
  assume "it \<in> set (below c)"
  then have "d # it \<in> set (paths c)" using assms(4) by (simp add: set_paths_Some)
  then show "d # it \<in> set (below n)" using assms(3) by (auto simp: set_below)
qed

lemma Cons_notin_below:
  assumes "\<forall>c\<in>set (children n). data c \<noteq> None \<and> data c \<noteq> Some d"
  shows "d # it \<notin> set (below n)"
proof
  assume "d # it \<in> set (below n)"
  then obtain c' where c': "c' \<in> set (children n)" "d # it \<in> set (paths c')"
    by (auto simp: set_below split: if_splits)
  then obtain k where k: "data c' = Some k" using assms by auto
  with c'(2) have "k = d" by (auto simp: set_paths_Some)
  then show False using assms c'(1) k by auto
qed

lemma contains_correct:
  "trie_inv n \<Longrightarrow> SetTrie__contains n it = Inr (it \<in> set (below n))"
proof (induction n it rule: SetTrie__contains.induct)
  case (1 node)
  have "[] \<notin> set (paths c)" if a: "c \<in> set (children node)" for c
  proof -
    obtain k where "data c = Some k" using a "1.prems" trie_inv_sel[of node] by auto
    then show ?thesis using paths_head[of c k "[]"] by auto
  qed
  then show ?case by (auto simp: set_below)
next
  case (2 node d it)
  let ?cs = "children node"
  have inv: "\<forall>c\<in>set ?cs. trie_inv c \<and> data c \<noteq> None"
    and srt: "sorted_wrt (<) (map key ?cs)"
    using "2.prems"(1) trie_inv_sel[of node] by simp_all
  from Node_index[of ?cs d] inv srt
  obtain r where r: "SortedList_index Node_lt Node_eq ?cs (Node_init (Some d)) = Inr r"
    and r': "case r of None \<Rightarrow> \<forall>c\<in>set ?cs. data c \<noteq> Some d
             | Some i \<Rightarrow> i < length ?cs \<and> data (?cs ! i) = Some d"
    by blast
  show ?case
  proof (cases r)
    case None
    then have "d # it \<notin> set (below node)" using r' inv Cons_notin_below[of node d it] by simp
    then show ?thesis using r None by simp
  next
    case (Some i)
    then have i: "?cs ! i \<in> set ?cs" "data (?cs ! i) = Some d" using r' by simp_all
    have "SetTrie__contains (?cs ! i) it = Inr (it \<in> set (below (?cs ! i)))"
      using "2.IH"[OF r Some] inv i(1) by simp
    moreover have "d # it \<in> set (below node) \<longleftrightarrow> it \<in> set (below (?cs ! i))"
      using Cons_in_below[OF srt _ i] inv by simp
    ultimately show ?thesis using r Some by simp
  qed
qed

lemma sort_distinct:
  fixes s :: "'a::linorder list"
  assumes "distinct s"
  shows "sorted_wrt (<) (sort s)" and "set (sort s) = set s"
  using assms by (simp_all add: strict_sorted_iff)

lemma SetTrie_add_correct:
  assumes "SetTrie_inv t" and "distinct s"
  shows "\<exists>t'. SetTrie_add t s = Inr t' \<and> SetTrie_inv t' \<and> stored t' = insert (sort s) (stored t)"
proof -
  from add_correct[of "root t" "sort s"] assms sort_distinct(1)[OF assms(2)]
  obtain n' where n': "SetTrie__add (root t) (sort s) = Inr n'" "trie_inv n'" "data n' = None"
    "set (below n') = insert (sort s) (set (below (root t)))"
    by (auto simp: SetTrie_inv_def)
  then show ?thesis by (simp add: SetTrie_add_def SetTrie_inv_def stored_def)
qed

lemma SetTrie_add_all_correct:
  assumes "SetTrie_inv t" and "\<forall>s\<in>set ss. distinct s"
  shows "\<exists>t'. SetTrie_add_all t ss = Inr t' \<and> SetTrie_inv t' \<and> stored t' = stored t \<union> sort ` set ss"
  using assms
proof (induction ss arbitrary: t)
  case Nil
  then show ?case by simp
next
  case (Cons s ss)
  from SetTrie_add_correct[OF Cons.prems(1), of s] Cons.prems(2)
  obtain t1 where t1: "SetTrie_add t s = Inr t1" "SetTrie_inv t1" "stored t1 = insert (sort s) (stored t)"
    by auto
  from Cons.IH[OF t1(2)] Cons.prems(2)
  obtain t' where "SetTrie_add_all t1 ss = Inr t'" "SetTrie_inv t'" "stored t' = stored t1 \<union> sort ` set ss"
    by auto
  then show ?case using t1 by auto
qed

lemma SetTrie_init_correct:
  assumes "\<forall>s\<in>set ss. distinct s"
  shows "\<exists>t. SetTrie_init ss = Inr t \<and> SetTrie_inv t \<and> stored t = sort ` set ss"
proof -
  have "SetTrie_inv \<lparr>root = Node_init None\<rparr>" by (simp add: SetTrie_inv_def)
  from SetTrie_add_all_correct[OF this assms]
  show ?thesis by (auto simp: SetTrie_init_def stored_def)
qed

lemma aslist_below:
  assumes "SetTrie_inv t"
  shows "SetTrie_aslist t = map set (below (root t))"
  using assms
  by (simp add: SetTrie_aslist_def SetTrie_iter_def iter_paths paths_below SetTrie_inv_def
      path_append_def)

lemma stored_sorted:
  assumes "SetTrie_inv t" and "p \<in> stored t"
  shows "sorted_wrt (<) p"
  using assms below_paths[of "root t" p] by (simp add: SetTrie_inv_def stored_def)

lemma sorted_list_of_set_stored:
  fixes p :: "'a::linorder list"
  assumes "sorted_wrt (<) p"
  shows "sorted_list_of_set (set p) = p"
  using assms by (simp add: strict_sorted_iff sorted_list_of_set.idem_if_sorted_distinct)

lemma aslist_sorted_lists:
  assumes "SetTrie_inv t"
  shows "map sorted_list_of_set (SetTrie_aslist t) = below (root t)"
proof -
  have "map sorted_list_of_set (map set (below (root t))) = map (\<lambda>p. p) (below (root t))"
    unfolding map_map
  proof (rule map_cong[OF refl])
    fix p assume "p \<in> set (below (root t))"
    then have "sorted_wrt (<) p" using stored_sorted[OF assms] by (simp add: stored_def)
    then show "(sorted_list_of_set \<circ> set) p = p" by (simp add: sorted_list_of_set_stored)
  qed
  then show ?thesis by (simp add: aslist_below[OF assms])
qed

lemma aslist_distinct:
  assumes "SetTrie_inv t"
  shows "distinct (SetTrie_aslist t)"
proof -
  have "sorted_wrt (<) (below (root t))" using assms sorted_below[of "root t"] by (simp add: SetTrie_inv_def)
  then have "distinct (map sorted_list_of_set (SetTrie_aslist t))"
    by (simp add: aslist_sorted_lists[OF assms] strict_sorted_iff)
  then show ?thesis by (simp add: distinct_map)
qed

lemma count_list_distinct:
  "distinct xs \<Longrightarrow> x \<in> set xs \<Longrightarrow> count_list xs x = 1"
  by (induction xs) auto

lemma contains_stored:
  assumes "SetTrie_inv t"
  shows "SetTrie_contains t s = Inr (sort s \<in> stored t)"
  using assms by (simp add: SetTrie_contains_def contains_correct SetTrie_inv_def stored_def)

lemma add_existing:
  "trie_inv n \<Longrightarrow> it \<in> set (below n) \<Longrightarrow> SetTrie__add n it = Inr n"
proof (induction n it rule: SetTrie__add.induct)
  case (1 node)
  have "[] \<notin> set (paths c)" if a: "c \<in> set (children node)" for c
  proof -
    obtain k where "data c = Some k" using a "1.prems"(1) trie_inv_sel[of node] by auto
    then show ?thesis using paths_head[of c k "[]"] by auto
  qed
  then have "flag_last node" using "1.prems"(2) by (auto simp: set_below split: if_splits)
  then show ?case by (cases node) simp
next
  case (2 node d it)
  let ?cs = "children node"
  have inv: "\<forall>c\<in>set ?cs. trie_inv c \<and> data c \<noteq> None"
    and srt: "sorted_wrt (<) (map key ?cs)"
    using "2.prems"(1) trie_inv_sel[of node] by simp_all
  from Node_index[of ?cs d] inv srt
  obtain r where r: "SortedList_index Node_lt Node_eq ?cs (Node_init (Some d)) = Inr r"
    and r': "case r of None \<Rightarrow> \<forall>c\<in>set ?cs. data c \<noteq> Some d
             | Some i \<Rightarrow> i < length ?cs \<and> data (?cs ! i) = Some d"
    by blast
  show ?case
  proof (cases r)
    case None
    then have "d # it \<notin> set (below node)" using r' inv Cons_notin_below[of node d it] by simp
    then show ?thesis using "2.prems"(2) by simp
  next
    case (Some i)
    then have i: "?cs ! i \<in> set ?cs" "data (?cs ! i) = Some d" using r' by simp_all
    have "it \<in> set (below (?cs ! i))"
      using Cons_in_below[OF srt _ i, of it] inv "2.prems"(2) by simp
    then have "SetTrie__add (?cs ! i) it = Inr (?cs ! i)"
      using "2.IH"(2)[OF r Some] inv i(1) by simp
    then show ?thesis using r Some by (cases node) simp
  qed
qed

lemma Nil_in_below:
  assumes "trie_inv n"
  shows "[] \<in> set (below n) \<longleftrightarrow> flag_last n"
proof -
  have "[] \<notin> set (paths c)" if a: "c \<in> set (children n)" for c
  proof -
    obtain k where "data c = Some k" using a assms trie_inv_sel[of n] by auto
    then show ?thesis using paths_head[of c k "[]"] by auto
  qed
  then show ?thesis by (auto simp: set_below)
qed

lemma below_cases:
  assumes "trie_inv n" and "p \<in> set (below n)" and "p \<noteq> []"
  obtains c k q where "c \<in> set (children n)" "data c = Some k" "p = k # q"
    "q \<in> set (below c)" "\<forall>y\<in>set q. k < y"
proof -
  from assms(2,3) obtain c where c: "c \<in> set (children n)" "p \<in> set (paths c)"
    by (auto simp: set_below split: if_splits)
  then have inv: "trie_inv c" "data c \<noteq> None" using assms(1) trie_inv_sel[of n] by auto
  then obtain k where k: "data c = Some k" by auto
  then obtain q where q: "p = k # q" "q \<in> set (below c)" using paths_head[OF k c(2)] by auto
  have "\<forall>y\<in>set q. k < y" using below_paths[OF inv(1) q(2)] k by simp
  then show ?thesis using that c(1) k q by blast
qed

lemma subset_split:
  fixes n :: "'a::linorder node"
  assumes "trie_inv n" and "\<forall>y\<in>Q. x < y"
  shows "(\<exists>p\<in>set (below n). set p \<subseteq> insert x Q) \<longleftrightarrow>
         (\<exists>p\<in>set (below n). set p \<subseteq> Q) \<or>
         (\<exists>c\<in>set (children n). data c = Some x \<and> (\<exists>q\<in>set (below c). set q \<subseteq> Q))"
    (is "?L \<longleftrightarrow> ?A \<or> ?B")
proof
  assume ?L
  then obtain p where p: "p \<in> set (below n)" "set p \<subseteq> insert x Q" by blast
  show "?A \<or> ?B"
  proof (cases "x \<in> set p")
    case False
    then have "set p \<subseteq> Q" using p(2) by auto
    then show ?thesis using p(1) by blast
  next
    case True
    then have "p \<noteq> []" by auto
    from below_cases[OF assms(1) p(1) this]
    obtain c k q where c: "c \<in> set (children n)" "data c = Some k" "p = k # q"
      "q \<in> set (below c)" "\<forall>y\<in>set q. k < y" by blast
    have "k = x \<or> x < k" using p(2) c(3) assms(2) by auto
    moreover have "x = k \<or> k < x" using True c(3,5) by auto
    ultimately have kx: "k = x" by auto
    then have "x \<notin> set q" using c(5) by auto
    then have "set q \<subseteq> Q" using p(2) c(3) by auto
    then show ?thesis using c(1,2,4) kx by blast
  qed
next
  assume "?A \<or> ?B"
  then show ?L
  proof
    assume ?A
    then show ?L by blast
  next
    assume ?B
    then obtain c q where c: "c \<in> set (children n)" "data c = Some x" "q \<in> set (below c)"
      "set q \<subseteq> Q" by blast
    have "x # q \<in> set (paths c)" using c(2,3) by (simp add: set_paths_Some)
    then have "x # q \<in> set (below n)" using c(1) set_below[of n] by blast
    moreover have "set (x # q) \<subseteq> insert x Q" using c(4) by auto
    ultimately show ?L by blast
  qed
qed

lemma drop_step:
  fixes setarr :: "'a::linorder list"
  assumes "sorted_wrt (<) setarr" and "idx < length setarr"
  shows "set (drop idx setarr) = insert (setarr ! idx) (set (drop (Suc idx) setarr))"
    and "\<forall>y\<in>set (drop (Suc idx) setarr). setarr ! idx < y"
proof -
  have d: "drop idx setarr = setarr ! idx # drop (Suc idx) setarr"
    using assms(2) by (simp add: Cons_nth_drop_Suc)
  then show "set (drop idx setarr) = insert (setarr ! idx) (set (drop (Suc idx) setarr))"
    by simp
  have "sorted_wrt (<) (drop idx setarr)" using assms(1) by (rule sorted_wrt_drop)
  then show "\<forall>y\<in>set (drop (Suc idx) setarr). setarr ! idx < y" by (simp add: d)
qed

declare SetTrie__hassubset.simps [simp del]

lemma hassubset_correct:
  "trie_inv n \<Longrightarrow> sorted_wrt (<) setarr \<Longrightarrow>
   SetTrie__hassubset n setarr idx = Inr (\<exists>p\<in>set (below n). set p \<subseteq> set (drop idx setarr))"
proof (induction n setarr idx rule: SetTrie__hassubset.induct)
  case (1 node setarr idx)
  let ?cs = "children node"
  let ?x = "setarr ! idx"
  have inv: "\<forall>c\<in>set ?cs. trie_inv c \<and> data c \<noteq> None"
    and srt: "sorted_wrt (<) (map key ?cs)"
    using "1.prems"(1) trie_inv_sel[of node] by simp_all
  show ?case
  proof (cases "flag_last node")
    case True
    then have "[] \<in> set (below node)" using Nil_in_below[OF "1.prems"(1)] by simp
    moreover have "set [] \<subseteq> set (drop idx setarr)" by simp
    ultimately have "\<exists>p\<in>set (below node). set p \<subseteq> set (drop idx setarr)" by (rule rev_bexI)
    then show ?thesis using True by (subst SetTrie__hassubset.simps) simp
  next
    case nf: False
    show ?thesis
    proof (cases "idx_gt_last idx setarr")
      case True
      then have "drop idx setarr = []" by (simp add: idx_gt_last_def)
      moreover have "[] \<notin> set (below node)" using Nil_in_below[OF "1.prems"(1)] nf by simp
      ultimately have "\<not> (\<exists>p\<in>set (below node). set p \<subseteq> set (drop idx setarr))" by auto
      then show ?thesis using nf True by (subst SetTrie__hassubset.simps) simp
    next
      case ni: False
      then have lt: "idx < length setarr" by (simp add: idx_gt_last_def)
      note ds = drop_step[OF "1.prems"(2) lt]
      note split = subset_split[OF "1.prems"(1) ds(2), folded ds(1)]
      from Node_index[of ?cs ?x] inv srt
      obtain r where r: "SortedList_index Node_lt Node_eq ?cs (Node_init (Some ?x)) = Inr r"
        and r': "case r of None \<Rightarrow> \<forall>c\<in>set ?cs. data c \<noteq> Some ?x
                 | Some i \<Rightarrow> i < length ?cs \<and> data (?cs ! i) = Some ?x"
        by blast
      show ?thesis
      proof (cases r)
        case None
        then have "\<forall>c\<in>set ?cs. data c \<noteq> Some ?x" using r' by simp
        then have eq: "(\<exists>p\<in>set (below node). set p \<subseteq> set (drop idx setarr)) \<longleftrightarrow>
            (\<exists>p\<in>set (below node). set p \<subseteq> set (drop (Suc idx) setarr))"
          using split by blast
        have "SetTrie__hassubset node setarr (idx + 1)
            = Inr (\<exists>p\<in>set (below node). set p \<subseteq> set (drop (idx + 1) setarr))"
          using "1.IH"(1)[OF nf ni r None "1.prems"] .
        then show ?thesis using nf ni r None eq by (subst SetTrie__hassubset.simps) simp
      next
        case (Some i)
        then have i: "?cs ! i \<in> set ?cs" "data (?cs ! i) = Some ?x" using r' by simp_all
        have uniq: "c = ?cs ! i" if a: "c \<in> set ?cs" and b: "data c = Some ?x" for c
          using key_unique[OF srt a i(1) b i(2)] .
        have ih: "SetTrie__hassubset (?cs ! i) setarr (idx + 1)
            = Inr (\<exists>q\<in>set (below (?cs ! i)). set q \<subseteq> set (drop (idx + 1) setarr))"
          using "1.IH"(2)[OF nf ni r Some] inv i(1) "1.prems"(2) by simp
        show ?thesis
        proof (cases "\<exists>q\<in>set (below (?cs ! i)). set q \<subseteq> set (drop (Suc idx) setarr)")
          case True
          then have "\<exists>p\<in>set (below node). set p \<subseteq> set (drop idx setarr)"
            using split i by blast
          then show ?thesis using nf ni r Some ih True by (subst SetTrie__hassubset.simps) simp
        next
          case False
          then have eq: "(\<exists>p\<in>set (below node). set p \<subseteq> set (drop idx setarr)) \<longleftrightarrow>
              (\<exists>p\<in>set (below node). set p \<subseteq> set (drop (Suc idx) setarr))"
            using split uniq by blast
          have ihf: "SetTrie__hassubset (?cs ! i) setarr (idx + 1) = Inr False"
            using ih False by simp
          have "SetTrie__hassubset node setarr (idx + 1)
              = Inr (\<exists>p\<in>set (below node). set p \<subseteq> set (drop (idx + 1) setarr))"
            using "1.IH"(3)[OF nf ni r Some ihf _ "1.prems"] by simp
          then show ?thesis using nf ni r Some ih False eq
            by (subst SetTrie__hassubset.simps) simp
        qed
      qed
    qed
  qed
qed

lemma emit_simps [simp]:
  "emit path [] = []"
  "emit path (xs @ ys) = emit path xs @ emit path ys"
  "emit path [[]] = [set path]"
  by (simp_all add: emit_def)

lemma sup_sel_simps [simp]:
  "sup_sel q [] = []"
  "sup_sel q (xs @ ys) = sup_sel q xs @ sup_sel q ys"
  "sup_sel [] ps = ps"
  by (simp_all add: sup_sel_def)

lemma emit_prefix: "emit path (map ((@) pre) ps) = emit (path @ pre) ps"
  by (simp add: emit_def comp_def)

lemma sup_sel_prefix:
  assumes "\<forall>y\<in>set q. y \<notin> set pre"
  shows "sup_sel q (map ((@) pre) ps) = map ((@) pre) (sup_sel q ps)"
proof -
  have "(set q \<subseteq> set (pre @ p)) = (set q \<subseteq> set p)" for p using assms by auto
  then show ?thesis by (simp add: sup_sel_def filter_map comp_def)
qed

lemma path_append_eq: "path_append path d = path @ path_append [] d"
  by (simp add: path_append_def split: option.splits)

lemma paths_Node:
  "paths (Node d fl cs) =
     map ((@) (path_append [] d)) ((if fl then [[]] else []) @ concat (map paths cs))"
  by simp

lemma sup_sel_none:
  assumes "\<forall>p\<in>set ps. \<not> set q \<subseteq> set p"
  shows "sup_sel q ps = []"
  using assms by (simp add: sup_sel_def)

lemma sup_sel_cong:
  assumes "\<forall>p\<in>set ps. (set q \<subseteq> set p) = (set q' \<subseteq> set p)"
  shows "sup_sel q ps = sup_sel q' ps"
  unfolding sup_sel_def by (rule filter_cong[OF refl]) (use assms in blast)

lemma paths_elems:
  fixes c :: "'a::linorder node"
  assumes "trie_inv c" and "data c = Some k" and "p \<in> set (paths c)"
  shows "k \<in> set p" and "\<forall>y\<in>set p. k \<le> y"
proof -
  from paths_head[OF assms(2,3)] obtain q where q: "p = k # q" "q \<in> set (below c)" by blast
  then show "k \<in> set p" by simp
  have "\<forall>y\<in>set q. k < y" using below_paths[OF assms(1) q(2)] assms(2) by simp
  then show "\<forall>y\<in>set p. k \<le> y" using q(1) by auto
qed

lemma itersupersets_correct:
  fixes n :: "'a::linorder node" and cs :: "'a node list"
  shows "trie_inv n \<Longrightarrow> sorted_wrt (<) setarr \<Longrightarrow>
     (\<forall>k. data n = Some k \<longrightarrow> (\<forall>y\<in>set (drop idx setarr). k < y)) \<Longrightarrow>
     SetTrie__itersupersets n setarr idx path
       = Inr (emit path (sup_sel (drop idx setarr) (paths n)))"
    and "(\<forall>c\<in>set cs. trie_inv c \<and> data c \<noteq> None) \<Longrightarrow> sorted_wrt (<) (map key cs) \<Longrightarrow>
     sorted_wrt (<) setarr \<Longrightarrow> idx < length setarr \<Longrightarrow>
     SetTrie__itersupersets_for cs setarr idx path
       = Inr (emit path (sup_sel (drop idx setarr) (concat (map paths cs))))"
    and "(\<forall>c\<in>set cs. trie_inv c) \<Longrightarrow> sorted_wrt (<) setarr \<Longrightarrow> length setarr \<le> idx \<Longrightarrow>
     SetTrie__itersupersets_all cs setarr idx path = Inr (emit path (concat (map paths cs)))"
proof (induction n setarr idx path and cs setarr idx path and cs setarr idx path
    rule: SetTrie__itersupersets_SetTrie__itersupersets_for_SetTrie__itersupersets_all.induct)
  case (1 d fl cs setarr idx path)
  let ?pre = "path_append [] d"
  let ?Q = "drop idx setarr"
  let ?C = "concat (map paths cs)"
  have inv: "\<forall>c\<in>set cs. trie_inv c \<and> data c \<noteq> None" and srt: "sorted_wrt (<) (map key cs)"
    using "1.prems"(1) by auto
  have fresh: "\<forall>y\<in>set ?Q. y \<notin> set ?pre"
    using "1.prems"(3) by (auto simp: path_append_def split: option.splits)
  have pa: "path_append path d = path @ ?pre" by (rule path_append_eq)
  have rhs: "emit path (sup_sel ?Q (paths (Node d fl cs)))
      = emit (path @ ?pre) (sup_sel ?Q (if fl then [[]] else [])) @ emit (path @ ?pre) (sup_sel ?Q ?C)"
    by (simp only: paths_Node sup_sel_prefix[OF fresh] emit_prefix sup_sel_simps emit_simps)
  show ?case
  proof (cases "idx_gt_last idx setarr")
    case False
    then have lt: "idx < length setarr" by (simp add: idx_gt_last_def)
    then have "?Q \<noteq> []" by simp
    then have "sup_sel ?Q (if fl then [[]] else []) = []" by (simp add: sup_sel_def)
    moreover have "SetTrie__itersupersets_for cs setarr idx (path @ ?pre)
        = Inr (emit (path @ ?pre) (sup_sel ?Q ?C))"
      using "1.IH"(1)[OF False inv srt "1.prems"(2) lt] pa by simp
    ultimately show ?thesis using False pa rhs by simp
  next
    case True
    then have ge: "length setarr \<le> idx" by (simp add: idx_gt_last_def)
    then have q: "?Q = []" by simp
    have "SetTrie__itersupersets_all cs setarr idx (path @ ?pre) = Inr (emit (path @ ?pre) ?C)"
      using "1.IH"(2)[OF _ _ "1.prems"(2) ge] True inv pa by simp
    then show ?thesis using True pa rhs q by simp
  qed
next
  case (2 setarr idx path)
  then show ?case by simp
next
  case (3 child rest setarr idx path)
  let ?x = "setarr ! idx"
  let ?Q = "drop idx setarr"
  let ?Q' = "drop (Suc idx) setarr"
  note ds = drop_step[OF "3.prems"(3,4)]
  have inv: "trie_inv child" "\<forall>c\<in>set rest. trie_inv c \<and> data c \<noteq> None"
    and srt: "sorted_wrt (<) (map key rest)" "\<forall>c\<in>set rest. key child < key c"
    using "3.prems"(1,2) by auto
  obtain k where k: "data child = Some k" using "3.prems"(1) by auto
  then have kk: "key child = k" by (simp add: key_def)
  have gt: "py_gt (data child) (Some ?x) = Inr (?x < k)" using k by (simp add: py_gt_def)
  show ?case
  proof (cases "?x < k")
    case True
    have "\<not> set ?Q \<subseteq> set p" if a: "p \<in> set (concat (map paths (child # rest)))" for p
    proof -
      from a obtain c where c: "c \<in> set (child # rest)" "p \<in> set (paths c)" by auto
      then obtain k' where k': "data c = Some k'" using "3.prems"(1) by auto
      have "k \<le> k'" using c(1) srt(2) kk k k' by (auto simp: key_def)
      moreover have "\<forall>y\<in>set p. k' \<le> y"
        using paths_elems(2)[OF _ k' c(2)] c(1) "3.prems"(1) by auto
      ultimately have "?x \<notin> set p" using True by auto
      then show ?thesis using ds(1) by auto
    qed
    then have "sup_sel ?Q (concat (map paths (child # rest))) = []"
      by (intro sup_sel_none) blast
    then show ?thesis using gt True by simp
  next
    case False
    have rest: "SetTrie__itersupersets_for rest setarr idx path
        = Inr (emit path (sup_sel ?Q (concat (map paths rest))))"
      if "(if data child = Some ?x
            then SetTrie__itersupersets child setarr (idx + 1) path
            else SetTrie__itersupersets child setarr idx path) = Inr ys" for ys
      using "3.IH"(3)[OF _ refl that inv(2) srt(1) "3.prems"(3,4)] gt False by simp
    show ?thesis
    proof (cases "k = ?x")
      case True
      have lb: "\<forall>k'. data child = Some k' \<longrightarrow> (\<forall>y\<in>set (drop (idx + 1) setarr). k' < y)"
        using ds(2) k True by simp
      have ch: "SetTrie__itersupersets child setarr (idx + 1) path
          = Inr (emit path (sup_sel ?Q' (paths child)))"
        using "3.IH"(1)[OF _ refl _ inv(1) "3.prems"(3) lb] gt False k True by simp
      have "sup_sel ?Q' (paths child) = sup_sel ?Q (paths child)"
      proof (rule sup_sel_cong, rule ballI)
        fix p assume "p \<in> set (paths child)"
        then have "?x \<in> set p" using paths_elems(1)[OF inv(1) k] True by simp
        then show "(set ?Q' \<subseteq> set p) = (set ?Q \<subseteq> set p)" using ds(1) by auto
      qed
      then show ?thesis using gt False k True ch rest[OF _] by simp
    next
      case ne: False
      with False have "k < ?x" by simp
      then have lb: "\<forall>k'. data child = Some k' \<longrightarrow> (\<forall>y\<in>set ?Q. k' < y)"
        using ds k by auto
      have ch: "SetTrie__itersupersets child setarr idx path
          = Inr (emit path (sup_sel ?Q (paths child)))"
        using "3.IH"(2)[OF _ refl _ inv(1) "3.prems"(3) lb] gt False k ne by simp
      then show ?thesis using gt False k ne ch rest[OF _] by simp
    qed
  qed
next
  case (4 setarr idx path)
  then show ?case by simp
next
  case (5 child rest setarr idx path)
  have q: "drop idx setarr = []" using "5.prems"(3) by simp
  have ch: "SetTrie__itersupersets child setarr idx path = Inr (emit path (paths child))"
    using "5.IH"(1)[OF _ "5.prems"(2)] "5.prems"(1) q by simp
  have "SetTrie__itersupersets_all rest setarr idx path = Inr (emit path (concat (map paths rest)))"
    using "5.IH"(2)[OF ch _ "5.prems"(2,3)] "5.prems"(1) by simp
  then show ?case using ch by simp
qed

lemma erase_sel [simp]:
  "data (erase n) = mdata n" "flag_last (erase n) = mflag_last n"
  "children (erase n) = map erase (mchildren n)"
  by (cases n; simp)+

lemma erase_MNode_init [simp]: "erase (MNode_init d) = Node_init d"
  by (simp add: MNode_init_def Node_init_def)

lemma MNode_cmp_erase:
  "MNode_lt a b = Node_lt (erase a) (erase b)" "MNode_eq a b = Node_eq (erase a) (erase b)"
  by (simp_all add: MNode_lt_def Node_lt_def MNode_eq_def Node_eq_def)

lemma index_map:
  assumes "\<And>a b. lt a b = lt' (f a) (f b)" and "\<And>a b. eq a b = eq' (f a) (f b)"
  shows "SortedList_index lt eq cs v = SortedList_index lt' eq' (map f cs) (f v)"
proof (induction cs)
  case Nil
  show ?case by simp
next
  case (Cons c cs)
  have "lt c v = lt' (f c) (f v)" "eq c v = eq' (f c) (f v)" by (rule assms)+
  then show ?case using Cons.IH by (auto split: sum.splits bool.splits option.splits)
qed

lemma add_map:
  assumes "\<And>a b. lt a b = lt' (f a) (f b)"
  shows "SortedList_add lt' (map f cs) (f v)
     = (case SortedList_add lt cs v of Inl e \<Rightarrow> Inl e | Inr (j, cs') \<Rightarrow> Inr (j, map f cs'))"
proof (induction cs)
  case Nil
  show ?case by simp
next
  case (Cons c cs)
  have "lt v c = lt' (f v) (f c)" by (rule assms)
  then show ?case using Cons.IH
    by (auto split: sum.splits bool.splits prod.splits)
qed

lemma index_erase:
  "SortedList_index MNode_lt MNode_eq cs v = SortedList_index Node_lt Node_eq (map erase cs) (erase v)"
  by (rule index_map) (rule MNode_cmp_erase)+

lemma add_erase:
  "SortedList_add Node_lt (map erase cs) (erase v)
     = (case SortedList_add MNode_lt cs v of Inl e \<Rightarrow> Inl e
        | Inr (j, cs') \<Rightarrow> Inr (j, map erase cs'))"
  by (rule add_map) (rule MNode_cmp_erase)

lemma assign_erase:
  "SetTrie__add (erase n) it
     = (case SetTrieMap__assign n it val of Inl e \<Rightarrow> Inl e | Inr n' \<Rightarrow> Inr (erase n'))"
proof (induction n it val rule: SetTrieMap__assign.induct)
  case (1 node val)
  then show ?case by (cases node) simp
next
  case (2 node d it val)
  let ?cs = "mchildren node"
  have ix: "SortedList_index Node_lt Node_eq (map erase ?cs) (Node_init (Some d))
      = SortedList_index MNode_lt MNode_eq ?cs (MNode_init (Some d))"
    using index_erase[of ?cs "MNode_init (Some d)"] by simp
  have ad: "SortedList_add Node_lt (map erase ?cs) (Node_init (Some d))
      = (case SortedList_add MNode_lt ?cs (MNode_init (Some d)) of Inl e \<Rightarrow> Inl e
         | Inr (j, cs') \<Rightarrow> Inr (j, map erase cs'))"
    using add_erase[of ?cs "MNode_init (Some d)"] by simp
  show ?case
  proof (cases "SortedList_index MNode_lt MNode_eq ?cs (MNode_init (Some d))")
    case (Inl e)
    then show ?thesis using ix by simp
  next
    case (Inr r)
    show ?thesis
    proof (cases r)
      case None
      show ?thesis
      proof (cases "SortedList_add MNode_lt ?cs (MNode_init (Some d))")
        case (Inl e)
        then show ?thesis using ix Inr None ad by simp
      next
        case ar: (Inr jc)
        obtain j cs' where jc: "jc = (j, cs')" by (cases jc)
        have "SetTrie__add (Node_init (Some d)) it
            = (case SetTrieMap__assign (MNode_init (Some d)) it val of
                 Inl e \<Rightarrow> Inl e | Inr n' \<Rightarrow> Inr (erase n'))"
          using "2.IH"(1)[OF Inr None ar jc[symmetric]] by simp
        then show ?thesis using ix Inr None ad ar jc
          by (cases "SetTrieMap__assign (MNode_init (Some d)) it val") (simp_all add: map_update)
      qed
    next
      case (Some i)
      then have i: "i < length ?cs" using SortedList_index_Some[of MNode_lt MNode_eq ?cs _ i] Inr by simp
      have "SetTrie__add (erase (?cs ! i)) it
          = (case SetTrieMap__assign (?cs ! i) it val of Inl e \<Rightarrow> Inl e | Inr n' \<Rightarrow> Inr (erase n'))"
        using "2.IH"(2)[OF Inr Some] .
      then show ?thesis using ix Inr Some i
        by (cases "SetTrieMap__assign (?cs ! i) it val") (simp_all add: map_update)
    qed
  qed
qed

lemma SortedList_add_shape:
  "SortedList_add lt cs v = Inr (j, cs') \<Longrightarrow> j \<le> length cs \<and> cs' = take j cs @ v # drop j cs"
  by (induction cs arbitrary: j cs') (auto split: sum.splits bool.splits prod.splits)

lemma Node_index_eq:
  fixes cs :: "'a::linorder node list"
  assumes "\<forall>c\<in>set cs. data c \<noteq> None" and "sorted_wrt (<) (map key cs)"
    and "i < length cs" and "data (cs ! i) = Some d"
  shows "SortedList_index Node_lt Node_eq cs (Node_init (Some d)) = Inr (Some i)"
proof -
  from Node_index[OF assms(1,2), of d]
  obtain r where r: "SortedList_index Node_lt Node_eq cs (Node_init (Some d)) = Inr r"
    and r': "case r of None \<Rightarrow> \<forall>c\<in>set cs. data c \<noteq> Some d
             | Some i \<Rightarrow> i < length cs \<and> data (cs ! i) = Some d"
    by blast
  have "cs ! i \<in> set cs" using assms(3) by simp
  then have "r \<noteq> None" using r' assms(4) by (auto split: option.splits)
  then obtain i' where i': "r = Some i'" by auto
  then have "i' < length cs" "data (cs ! i') = Some d" using r' by simp_all
  then have "map key cs ! i' = map key cs ! i" using assms(3,4) by (simp add: key_def)
  moreover have "distinct (map key cs)" using assms(2) by (simp add: strict_sorted_iff)
  ultimately have "i' = i"
    using nth_eq_iff_index_eq[of "map key cs" i' i] \<open>i' < length cs\<close> assms(3) by simp
  then show ?thesis using r i' by simp
qed

lemma map_fst_prefix:
  "map fst (map (\<lambda>(p, w). (pre @ p, w)) xs) = map ((@) pre) (map fst xs)"
  by (induction xs) (simp_all add: case_prod_unfold)

lemma mpaths_fst: "map fst (mpaths n) = paths (erase n)"
proof (induction n)
  case (MNode d fl v cs)
  have c: "map fst (concat (map mpaths cs)) = concat (map paths (map erase cs))"
    using MNode.IH by (induction cs) simp_all
  have "map fst (mpaths (MNode d fl v cs))
      = map ((@) (path_append [] d)) (map fst ((if fl then [([], v)] else []) @ concat (map mpaths cs)))"
    by (simp only: mpaths.simps map_fst_prefix)
  also have "\<dots> = map ((@) (path_append [] d)) ((if fl then [[]] else []) @ concat (map paths (map erase cs)))"
    using c by simp
  also have "\<dots> = paths (erase (MNode d fl v cs))" by simp
  finally show ?case .
qed

lemma mbelow_fst: "map fst (mbelow n) = below (erase n)"
proof -
  have "map fst (concat (map mpaths cs)) = concat (map paths (map erase cs))" for cs :: "('a, 'b) mnode list"
    by (induction cs) (simp_all add: mpaths_fst)
  then show ?thesis by (simp add: mbelow_def below_def)
qed

lemma mpaths_mbelow:
  "mpaths n = map (\<lambda>(p, w). (path_append [] (mdata n) @ p, w)) (mbelow n)"
  by (cases n) (simp add: mbelow_def)

lemma miter_mpaths:
  fixes n :: "('a, 'v) mnode" and cs :: "('a, 'v) mnode list"
  shows "SetTrieMap__iter n path mode = map (\<lambda>(p, w). yield_item mode (path @ p) w) (mpaths n)"
    and "SetTrieMap__iter_for cs path mode
     = map (\<lambda>(p, w). yield_item mode (path @ p) w) (concat (map mpaths cs))"
proof (induction n path mode and cs path mode rule: SetTrieMap__iter_SetTrieMap__iter_for.induct)
  case (1 d fl v cs path mode)
  then show ?case
    by (cases d) (simp_all add: path_append_def comp_def case_prod_unfold)
next
  case (2 path mode)
  then show ?case by simp
next
  case (3 child rest path mode)
  then show ?case by simp
qed

lemma assign_data: "SetTrieMap__assign n it val = Inr n' \<Longrightarrow> mdata n' = mdata n"
  by (cases it) (auto split: sum.splits option.splits prod.splits)

lemma mindex_erase:
  "SortedList_index MNode_lt MNode_eq cs (MNode_init (Some d))
     = SortedList_index Node_lt Node_eq (map erase cs) (Node_init (Some d))"
  using index_erase[of cs "MNode_init (Some d)"] by simp

lemma assign_inv:
  assumes "trie_inv (erase n)" and "sorted_wrt (<) it"
    and "\<forall>x. mdata n = Some x \<longrightarrow> (\<forall>y\<in>set it. x < y)"
  shows "\<exists>n'. SetTrieMap__assign n it val = Inr n' \<and> trie_inv (erase n') \<and> mdata n' = mdata n
           \<and> set (below (erase n')) = insert it (set (below (erase n)))"
proof -
  from add_correct[OF assms(1,2)] assms(3)
  obtain e where e: "SetTrie__add (erase n) it = Inr e" "trie_inv e" "data e = data (erase n)"
    "set (below e) = insert it (set (below (erase n)))" by auto
  then show ?thesis using assign_erase[of n it val]
    by (cases "SetTrieMap__assign n it val") auto
qed

lemma mget_child:
  assumes "trie_inv (erase n)" and "i < length (mchildren n)" and "mdata (mchildren n ! i) = Some d"
  shows "SetTrieMap__get n (d # it) dflt = SetTrieMap__get (mchildren n ! i) it dflt"
proof -
  let ?cs = "map erase (mchildren n)"
  have "\<forall>c\<in>set ?cs. data c \<noteq> None" "sorted_wrt (<) (map key ?cs)"
    using assms(1) trie_inv_sel[of "erase n"] by simp_all
  moreover have "i < length ?cs" "data (?cs ! i) = Some d" using assms(2,3) by simp_all
  ultimately have "SortedList_index Node_lt Node_eq ?cs (Node_init (Some d)) = Inr (Some i)"
    by (rule Node_index_eq)
  then show ?thesis by (simp add: mindex_erase)
qed

lemma get_assign:
  "trie_inv (erase n) \<Longrightarrow> sorted_wrt (<) it \<Longrightarrow>
   (\<forall>x. mdata n = Some x \<longrightarrow> (\<forall>y\<in>set it. x < y)) \<Longrightarrow>
   SetTrieMap__assign n it val = Inr n' \<Longrightarrow> SetTrieMap__get n' it dflt = Inr val"
proof (induction n it val arbitrary: n' rule: SetTrieMap__assign.induct)
  case (1 node val)
  then show ?case by auto
next
  case (2 node d it val)
  let ?cs = "mchildren node"
  have it: "sorted_wrt (<) it" "\<forall>y\<in>set it. d < y" using "2.prems"(2) by auto
  from assign_inv[OF "2.prems"(1,2,3), of val] "2.prems"(4)
  have inv': "trie_inv (erase n')" by auto
  have chinv: "\<forall>c\<in>set ?cs. trie_inv (erase c)"
    using "2.prems"(1) trie_inv_sel[of "erase node"] by simp
  obtain r where r: "SortedList_index MNode_lt MNode_eq ?cs (MNode_init (Some d)) = Inr r"
    using "2.prems"(4) by (auto split: sum.splits)
  show ?case
  proof (cases r)
    case (Some i)
    then have i: "i < length ?cs" "MNode_eq (?cs ! i) (MNode_init (Some d))"
      using SortedList_index_Some[OF r[unfolded Some]] by simp_all
    then have di: "mdata (?cs ! i) = Some d" by (simp add: MNode_eq_def MNode_init_def)
    obtain c' where c': "SetTrieMap__assign (?cs ! i) it val = Inr c'"
      and n': "n' = MNode (mdata node) (mflag_last node) (mvalue node) (?cs[i := c'])"
      using "2.prems"(4) r Some by (auto split: sum.splits)
    have "SetTrieMap__get c' it dflt = Inr val"
      using "2.IH"(2)[OF r Some _ it(1) _ c'] chinv i(1) di it(2) by simp
    moreover have "mdata c' = Some d" using assign_data[OF c'] di by simp
    then have "SetTrieMap__get n' (d # it) dflt = SetTrieMap__get (mchildren n' ! i) it dflt"
      using mget_child[OF inv', of i d] n' i(1) by simp
    ultimately show ?thesis using n' i(1) by simp
  next
    case None
    obtain j cs1 where a: "SortedList_add MNode_lt ?cs (MNode_init (Some d)) = Inr (j, cs1)"
      using "2.prems"(4) r None by (auto split: sum.splits)
    then have sh: "j \<le> length ?cs" "cs1 = take j ?cs @ MNode_init (Some d) # drop j ?cs"
      using SortedList_add_shape[OF a] by simp_all
    then have j: "j < length cs1" by simp
    obtain c' where c': "SetTrieMap__assign (MNode_init (Some d)) it val = Inr c'"
      and n': "n' = MNode (mdata node) (mflag_last node) (mvalue node) (cs1[j := c'])"
      using "2.prems"(4) r None a by (auto split: sum.splits)
    have "SetTrieMap__get c' it dflt = Inr val"
      using "2.IH"(1)[OF r None a refl _ it(1) _ c'] it(2) by (simp add: MNode_init_def)
    moreover have "mdata c' = Some d" using assign_data[OF c'] by (simp add: MNode_init_def)
    then have "SetTrieMap__get n' (d # it) dflt = SetTrieMap__get (mchildren n' ! j) it dflt"
      using mget_child[OF inv', of j d] n' j by simp
    ultimately show ?thesis using n' j by simp
  qed
qed

lemma mpaths_nonempty:
  assumes "mdata c = Some k" and "(p, w) \<in> set (mpaths c)"
  shows "\<exists>q. p = k # q \<and> (q, w) \<in> set (mbelow c)"
  using assms by (auto simp: mpaths_mbelow path_append_def)

lemma mbelow_cases:
  assumes "(p, w) \<in> set (mbelow n)"
  shows "(p = [] \<and> mflag_last n \<and> w = mvalue n)
       \<or> (\<exists>i<length (mchildren n). (p, w) \<in> set (mpaths (mchildren n ! i)))"
  using assms by (auto simp: mbelow_def in_set_conv_nth split: if_splits)

lemma get_item:
  "trie_inv (erase n) \<Longrightarrow> (p, w) \<in> set (mbelow n) \<Longrightarrow> SetTrieMap__get n p dflt = Inr w"
proof (induction p arbitrary: n)
  case Nil
  have "\<not> (\<exists>i<length (mchildren n). ([], w) \<in> set (mpaths (mchildren n ! i)))"
  proof
    assume "\<exists>i<length (mchildren n). ([], w) \<in> set (mpaths (mchildren n ! i))"
    then obtain i where i: "i < length (mchildren n)" "([], w) \<in> set (mpaths (mchildren n ! i))"
      by blast
    then have "erase (mchildren n ! i) \<in> set (children (erase n))" by simp
    then have "data (erase (mchildren n ! i)) \<noteq> None"
      using Nil.prems(1) trie_inv_sel[of "erase n"] by blast
    then obtain k where "mdata (mchildren n ! i) = Some k" by auto
    then show False using mpaths_nonempty[OF _ i(2)] by simp
  qed
  then show ?case using mbelow_cases[OF Nil.prems(2)] by auto
next
  case (Cons d q)
  from mbelow_cases[OF Cons.prems(2)]
  obtain i where i: "i < length (mchildren n)" "(d # q, w) \<in> set (mpaths (mchildren n ! i))"
    by auto
  let ?c = "mchildren n ! i"
  have mem: "erase ?c \<in> set (children (erase n))" using i(1) by simp
  then have inv: "trie_inv (erase ?c)" "data (erase ?c) \<noteq> None"
    using Cons.prems(1) trie_inv_sel[of "erase n"] by blast+
  then obtain k where k: "mdata ?c = Some k" by auto
  from mpaths_nonempty[OF k i(2)] have dk: "k = d" and q: "(q, w) \<in> set (mbelow ?c)" by simp_all
  have "SetTrieMap__get n (d # q) dflt = SetTrieMap__get ?c q dflt"
    using mget_child[OF Cons.prems(1) i(1), of d] k dk by simp
  then show ?case using Cons.IH[OF inv(1) q] by simp
qed

lemma SetTrieMap_assign_correct:
  assumes "SetTrieMap_inv m" and "distinct K"
  shows "\<exists>m'. SetTrieMap_assign m K v = Inr m' \<and> SetTrieMap_inv m'
           \<and> mstored m' = insert (sort K) (mstored m)
           \<and> SetTrieMap_get m' K dflt = Inr v"
proof -
  have s: "sorted_wrt (<) (sort K)" using assms(2) by (rule sort_distinct(1))
  have inv: "trie_inv (erase (mroot m))" and d: "mdata (mroot m) = None"
    using assms(1) by (simp_all add: SetTrieMap_inv_def)
  from assign_inv[OF inv s, of v] d
  obtain n' where n': "SetTrieMap__assign (mroot m) (sort K) v = Inr n'" "trie_inv (erase n')"
    "mdata n' = None" "set (below (erase n')) = insert (sort K) (set (below (erase (mroot m))))"
    by auto
  have "SetTrieMap__get n' (sort K) dflt = Inr v"
    using get_assign[OF inv s _ n'(1)] d by simp
  then show ?thesis using n'
    by (simp add: SetTrieMap_assign_def SetTrieMap_inv_def mstored_def SetTrieMap_get_def)
qed

lemma SetTrieMap_assign_all_correct:
  assumes "SetTrieMap_inv m" and "\<forall>kv\<in>set kvs. distinct (fst kv)"
  shows "\<exists>m'. SetTrieMap_assign_all m kvs = Inr m' \<and> SetTrieMap_inv m'"
  using assms
proof (induction kvs arbitrary: m)
  case Nil
  then show ?case by simp
next
  case (Cons kv kvs)
  obtain k v where kv: "kv = (k, v)" by (cases kv)
  from SetTrieMap_assign_correct[OF Cons.prems(1), of k v None] Cons.prems(2) kv
  obtain m1 where m1: "SetTrieMap_assign m k v = Inr m1" "SetTrieMap_inv m1" by auto
  from Cons.IH[OF m1(2)] Cons.prems(2)
  obtain m' where "SetTrieMap_assign_all m1 kvs = Inr m'" "SetTrieMap_inv m'" by auto
  then show ?case using m1 kv by auto
qed

lemma SetTrieMap_init_correct:
  assumes "\<forall>kv\<in>set kvs. distinct (fst kv)"
  shows "\<exists>m. SetTrieMap_init kvs = Inr m \<and> SetTrieMap_inv m"
proof -
  have "SetTrieMap_inv \<lparr>mroot = MNode_init None\<rparr>"
    by (simp add: SetTrieMap_inv_def MNode_init_def)
  from SetTrieMap_assign_all_correct[OF this assms]
  show ?thesis by (simp add: SetTrieMap_init_def)
qed

lemma miter_mbelow:
  assumes "SetTrieMap_inv m"
  shows "SetTrieMap_iter m mode = map (\<lambda>(p, w). yield_item mode p w) (mbelow (mroot m))"
proof -
  have "mpaths (mroot m) = mbelow (mroot m)"
    using assms mpaths_mbelow[of "mroot m"]
    by (simp add: SetTrieMap_inv_def path_append_def case_prod_unfold)
  then show ?thesis by (simp add: SetTrieMap_iter_def miter_mpaths)
qed

lemma filter_unique:
  "distinct (map f xs) \<Longrightarrow> x \<in> set xs \<Longrightarrow> filter (\<lambda>y. f y = f x) xs = [x]"
proof (induction xs)
  case Nil
  then show ?case by simp
next
  case (Cons a xs)
  show ?case
  proof (cases "a = x")
    case True
    then have "f x \<notin> f ` set xs" using Cons.prems(1) by simp
    then have "\<forall>y\<in>set xs. f y \<noteq> f x" by (metis image_eqI)
    then have "filter (\<lambda>y. f y = f x) xs = []" by (simp add: filter_empty_conv)
    then show ?thesis using True by simp
  next
    case False
    then have "x \<in> set xs" using Cons.prems(2) by simp
    moreover from this have "f a \<noteq> f x" using Cons.prems(1) by auto
    ultimately show ?thesis using Cons by simp
  qed
qed

text \<open>
  Claim C1 says that \<^verbatim>\<open>hassuperset(Q)\<close> is true exactly when a stored set is a superset
  of \<open>Q\<close>, and false on a trie without stored sets for every query. The code at the
  trie that \<^verbatim>\<open>SetTrie()\<close> builds and the empty query: nothing is stored, the iteration
  yields nothing, and \<^verbatim>\<open>hassuperset\<close> answers \<^verbatim>\<open>True\<close>.
\<close>

theorem C1_hassuperset_empty_trie:
  "SetTrie_init [] = Inr \<lparr>root = Node_init None\<rparr>
   \<and> SetTrie_aslist \<lparr>root = Node_init None\<rparr> = []
   \<and> SetTrie_hassuperset \<lparr>root = Node_init None\<rparr> [] = Inr True"
  by (simp add: SetTrie_init_def SetTrie_aslist_def SetTrie_iter_def SetTrie_hassuperset_def
      Node_init_def idx_gt_last_def path_append_def)

text \<open>
  Claim C2 says that \<^verbatim>\<open>subsets(Q)\<close> holds exactly the stored subsets of \<open>Q\<close>. The code at
  the trie of the test suite, \<^verbatim>\<open>SetTrie([{1,3}, {1,3,5}, {1,4}, {1,2,4}, {2,4}, {2,3,5}])\<close>,
  and the query \<open>{2,3,4,5}\<close>: the stored sets \<open>{2,4}\<close> and \<open>{2,3,5}\<close> are subsets of the
  query, \<^verbatim>\<open>hassubset\<close> finds one, and \<^verbatim>\<open>subsets\<close> returns the empty list.
\<close>

theorem C2_subsets_misses_stored_subset:
  "SetTrie_init [[1, 3], [1, 3, 5], [1, 4], [1, 2, 4], [2, 4], [2, 3, 5]] = Inr test_trie
   \<and> SetTrie_contains test_trie [2, 4] = Inr True
   \<and> SetTrie_contains test_trie [2, 3, 5] = Inr True
   \<and> SetTrie_hassubset test_trie [2, 3, 4, 5] = Inr True
   \<and> SetTrie_itersubsets test_trie [2, 3, 4, 5] = Inr []
   \<and> SetTrie_subsets test_trie [2, 3, 4, 5] = Inr []"
  by (simp add: SetTrie_init_def SetTrie_add_def SetTrie_contains_def SetTrie_hassubset_def
      SetTrie_subsets_def SetTrie_itersubsets_def test_trie_def Node_init_def Node_lt_def
      Node_eq_def py_lt_def py_ge_def path_append_def idx_gt_last_def SetTrie__hassubset.simps)

text \<open>
  Claim C3: for a trie built from sets and a query set \<open>Q\<close>, \<^verbatim>\<open>itersupersets(Q)\<close> and
  \<^verbatim>\<open>supersets(Q)\<close> return, without raising an error, a list without repetitions whose
  members are exactly the stored sets that are supersets of \<open>Q\<close>.
\<close>

theorem C3_supersets_exact:
  assumes "\<forall>s\<in>set ss. distinct s" and "distinct Q"
  shows "\<exists>t r. SetTrie_init ss = Inr t \<and> SetTrie_itersupersets t Q = Inr r
           \<and> SetTrie_supersets t Q = Inr r \<and> distinct r
           \<and> set r = {S \<in> set ` set ss. set Q \<subseteq> S}"
proof -
  from SetTrie_init_correct[OF assms(1)]
  obtain t where t: "SetTrie_init ss = Inr t" "SetTrie_inv t" "stored t = sort ` set ss" by blast
  have inv: "trie_inv (root t)" "data (root t) = None" using t(2) by (simp_all add: SetTrie_inv_def)
  have "map ((@) []) xs = xs" for xs :: "'a list list" by (induction xs) simp_all
  then have pb: "paths (root t) = below (root t)"
    using inv(2) by (simp add: paths_below path_append_def)
  let ?r = "emit [] (sup_sel (sort Q) (below (root t)))"
  have r: "SetTrie_itersupersets t Q = Inr ?r"
    using itersupersets_correct(1)[of "root t" "sort Q" 0 "[]"] inv sort_distinct(1)[OF assms(2)] pb
    by (simp add: SetTrie_itersupersets_def)
  have "distinct (map set (below (root t)))"
    using aslist_distinct[OF t(2)] by (simp add: aslist_below[OF t(2)])
  then have "distinct (map set (filter (\<lambda>p. set (sort Q) \<subseteq> set p) (below (root t))))"
    by (rule distinct_map_filter)
  then have d: "distinct ?r" by (simp add: emit_def sup_sel_def)
  have "set ?r = set ` {p \<in> sort ` set ss. set Q \<subseteq> set p}"
    using t(3) by (simp add: emit_def sup_sel_def stored_def)
  also have "\<dots> = {S \<in> set ` set ss. set Q \<subseteq> S}"
  proof (intro set_eqI iffI)
    fix S assume "S \<in> set ` {p \<in> sort ` set ss. set Q \<subseteq> set p}"
    then obtain s where "s \<in> set ss" "S = set (sort s)" "set Q \<subseteq> set (sort s)" by auto
    then show "S \<in> {S \<in> set ` set ss. set Q \<subseteq> S}" by auto
  next
    fix S assume "S \<in> {S \<in> set ` set ss. set Q \<subseteq> S}"
    then obtain s where s: "s \<in> set ss" "S = set s" "set Q \<subseteq> set s" by auto
    have "S = set (sort s)" using s(2) by simp
    moreover have "sort s \<in> {p \<in> sort ` set ss. set Q \<subseteq> set p}" using s(1,3) by simp
    ultimately show "S \<in> set ` {p \<in> sort ` set ss. set Q \<subseteq> set p}" by (rule image_eqI)
  qed
  finally have "set ?r = {S \<in> set ` set ss. set Q \<subseteq> S}" .
  then show ?thesis using t(1) r d by (auto simp: SetTrie_supersets_def)
qed

theorem C3_supersets_exact_witness:
  "distinct [1, 3::nat] \<and> distinct [5, 3, 1::nat] \<and> distinct [2, 4::nat] \<and> distinct [3::nat]
   \<and> (\<exists>t r. SetTrie_init [[1, 3], [5, 3, 1], [2, 4::nat]] = Inr t
           \<and> SetTrie_itersupersets t [3] = Inr r
           \<and> SetTrie_supersets t [3] = Inr r \<and> distinct r
           \<and> set r = {S \<in> set ` set [[1, 3], [5, 3, 1], [2, 4::nat]]. set [3] \<subseteq> S})"
  using C3_supersets_exact[of "[[1, 3], [5, 3, 1], [2, 4::nat]]" "[3]"] by simp

text \<open>
  Claim C4: for a trie built from sets and a query set \<open>Q\<close>, \<^verbatim>\<open>hassubset(Q)\<close> returns,
  without raising an error, \<^verbatim>\<open>True\<close> exactly when a stored set is a subset of \<open>Q\<close>; so it
  is \<^verbatim>\<open>True\<close> for every query when the empty set is stored, and \<^verbatim>\<open>False\<close> for every
  query when nothing is stored.
\<close>

theorem C4_hassubset_exact:
  assumes "\<forall>s\<in>set ss. distinct s" and "distinct Q"
  shows "\<exists>t. SetTrie_init ss = Inr t
           \<and> SetTrie_hassubset t Q = Inr (\<exists>S\<in>set ss. set S \<subseteq> set Q)
           \<and> ([] \<in> set ss \<longrightarrow> SetTrie_hassubset t Q = Inr True)
           \<and> (ss = [] \<longrightarrow> SetTrie_hassubset t Q = Inr False)"
proof -
  from SetTrie_init_correct[OF assms(1)]
  obtain t where t: "SetTrie_init ss = Inr t" "SetTrie_inv t" "stored t = sort ` set ss" by blast
  have inv: "trie_inv (root t)" using t(2) by (simp add: SetTrie_inv_def)
  have "(\<exists>p\<in>set (below (root t)). set p \<subseteq> set (drop 0 (sort Q))) = (\<exists>S\<in>set ss. set S \<subseteq> set Q)"
    using t(3) by (auto simp: stored_def)
  then have h: "SetTrie_hassubset t Q = Inr (\<exists>S\<in>set ss. set S \<subseteq> set Q)"
    using hassubset_correct[OF inv sort_distinct(1)[OF assms(2)], of 0]
    by (simp add: SetTrie_hassubset_def)
  moreover have "[] \<in> set ss \<longrightarrow> (\<exists>S\<in>set ss. set S \<subseteq> set Q)"
  proof
    assume "[] \<in> set ss"
    moreover have "set [] \<subseteq> set Q" by simp
    ultimately show "\<exists>S\<in>set ss. set S \<subseteq> set Q" by (rule rev_bexI)
  qed
  ultimately show ?thesis using t(1) by auto
qed

theorem C4_hassubset_exact_witness:
  "distinct [1, 3::nat] \<and> distinct [2, 4::nat] \<and> distinct [4, 1, 2::nat]
   \<and> (\<exists>t. SetTrie_init [[1, 3], [2, 4::nat]] = Inr t
           \<and> SetTrie_hassubset t [4, 1, 2] = Inr (\<exists>S\<in>set [[1, 3], [2, 4::nat]]. set S \<subseteq> set [4, 1, 2])
           \<and> ([] \<in> set [[1, 3], [2, 4::nat]] \<longrightarrow> SetTrie_hassubset t [4, 1, 2] = Inr True)
           \<and> ([[1, 3], [2, 4::nat]] = [] \<longrightarrow> SetTrie_hassubset t [4, 1, 2] = Inr False))"
  using C4_hassubset_exact[of "[[1, 3], [2, 4::nat]]" "[4, 1, 2]"] by simp

text \<open>
  Claim C5 says that an operation given an iterable with repeated elements behaves as on
  the set of its elements, so that \<^verbatim>\<open>contains({x})\<close> holds after \<^verbatim>\<open>add([x, x])\<close>. The code
  on the empty trie: \<^verbatim>\<open>add([x, x])\<close> builds a path of two nodes with the data \<open>x\<close> and
  marks the second one, \<^verbatim>\<open>contains({x})\<close> is then \<^verbatim>\<open>False\<close>, and \<^verbatim>\<open>add({x})\<close> builds
  another trie, in which \<^verbatim>\<open>contains({x})\<close> is \<^verbatim>\<open>True\<close>.
\<close>

theorem C5_add_keeps_duplicates:
  "SetTrie_add \<lparr>root = Node_init None\<rparr> [x, x]
     = Inr \<lparr>root = Node None False [Node (Some x) False [Node (Some x) True []]]\<rparr>
   \<and> SetTrie_contains \<lparr>root = Node None False [Node (Some x) False [Node (Some x) True []]]\<rparr> [x]
     = Inr False
   \<and> SetTrie_add \<lparr>root = Node_init None\<rparr> [x]
     = Inr \<lparr>root = Node None False [Node (Some x) True []]\<rparr>
   \<and> SetTrie_contains \<lparr>root = Node None False [Node (Some x) True []]\<rparr> [x] = Inr True"
  by (simp add: SetTrie_add_def SetTrie_contains_def Node_init_def Node_lt_def Node_eq_def
      py_lt_def)

text \<open>
  Claim C6: in a trie built from sets, after \<^verbatim>\<open>add(S)\<close> has been called \<open>n \<ge> 1\<close> times
  for a set \<open>S\<close>, \<^verbatim>\<open>contains(S)\<close> is \<^verbatim>\<open>True\<close>, \<open>S\<close> occurs exactly once in \<^verbatim>\<open>aslist()\<close>, and
  one more \<^verbatim>\<open>add(S)\<close> leaves the trie as it is. A set is given as a list of its
  elements, in any order and without repetition; no operation raises an error.
\<close>

theorem C6_add_idempotent:
  assumes "\<forall>s\<in>set ss. distinct s" and "distinct S" and "1 \<le> n"
  shows "\<exists>t t'. SetTrie_init ss = Inr t \<and> SetTrie_add_all t (replicate n S) = Inr t'
           \<and> SetTrie_contains t' S = Inr True
           \<and> count_list (SetTrie_aslist t') (set S) = 1
           \<and> SetTrie_add t' S = Inr t'"
proof -
  from SetTrie_init_correct[OF assms(1)]
  obtain t where t: "SetTrie_init ss = Inr t" "SetTrie_inv t" by blast
  have "\<forall>s\<in>set (replicate n S). distinct s" using assms(2) by simp
  from SetTrie_add_all_correct[OF t(2) this]
  obtain t' where t': "SetTrie_add_all t (replicate n S) = Inr t'" "SetTrie_inv t'"
    "stored t' = stored t \<union> sort ` set (replicate n S)" by blast
  have mem: "sort S \<in> stored t'" using t'(3) assms(3) by simp
  then have c: "SetTrie_contains t' S = Inr True" using contains_stored[OF t'(2)] by simp
  have "set (sort S) \<in> set (SetTrie_aslist t')"
    using mem by (simp add: aslist_below[OF t'(2)] stored_def del: set_sort)
  then have "count_list (SetTrie_aslist t') (set S) = 1"
    using count_list_distinct[OF aslist_distinct[OF t'(2)]] by simp
  moreover have "SetTrie_add t' S = Inr t'"
    using add_existing[of "root t'" "sort S"] mem t'(2)
    by (simp add: SetTrie_add_def SetTrie_inv_def stored_def)
  ultimately show ?thesis using t(1) t'(1) c by blast
qed

theorem C6_add_idempotent_witness:
  "distinct [1, 3::nat] \<and> distinct [1, 4::nat] \<and> distinct [3, 1::nat] \<and> 1 \<le> (2::nat)
   \<and> (\<exists>t t'. SetTrie_init [[1, 3], [1, 4::nat]] = Inr t
           \<and> SetTrie_add_all t (replicate 2 [3, 1]) = Inr t'
           \<and> SetTrie_contains t' [3, 1] = Inr True
           \<and> count_list (SetTrie_aslist t') (set [3, 1]) = 1
           \<and> SetTrie_add t' [3, 1] = Inr t')"
  using C6_add_idempotent[of "[[1, 3], [1, 4::nat]]" "[3, 1]" 2] by simp

text \<open>
  Claim C7: \<^verbatim>\<open>aslist()\<close>, which is the direct iteration, returns the stored sets in the
  strict lexicographic order of their ascending element sequences (so no set comes
  twice), and it returns exactly the sets that were added.
\<close>

theorem C7_aslist_sorted:
  assumes "\<forall>s\<in>set ss. distinct s"
  shows "\<exists>t. SetTrie_init ss = Inr t \<and> SetTrie_iter t = SetTrie_aslist t
           \<and> sorted_wrt (<) (map sorted_list_of_set (SetTrie_aslist t))
           \<and> set (SetTrie_aslist t) = set ` set ss"
proof -
  from SetTrie_init_correct[OF assms]
  obtain t where t: "SetTrie_init ss = Inr t" "SetTrie_inv t" "stored t = sort ` set ss" by blast
  have "sorted_wrt (<) (map sorted_list_of_set (SetTrie_aslist t))"
    using sorted_below[of "root t"] t(2) by (simp add: aslist_sorted_lists SetTrie_inv_def)
  moreover have "set (SetTrie_aslist t) = set ` set ss"
    using t(3) by (simp add: aslist_below[OF t(2)] stored_def image_image)
  ultimately show ?thesis using t(1) by (auto simp: SetTrie_aslist_def)
qed

theorem C7_aslist_sorted_witness:
  "distinct [2, 4::nat] \<and> distinct [1, 3::nat] \<and> distinct [4, 2, 1::nat]
   \<and> (\<exists>t. SetTrie_init [[2, 4], [1, 3], [4, 2, 1::nat]] = Inr t \<and> SetTrie_iter t = SetTrie_aslist t
           \<and> sorted_wrt (<) (map sorted_list_of_set (SetTrie_aslist t))
           \<and> set (SetTrie_aslist t) = set ` set [[2, 4], [1, 3], [4, 2, 1::nat]])"
  using C7_aslist_sorted[of "[[2, 4], [1, 3], [4, 2, 1::nat]]"] by simp

text \<open>
  Claim C8: in a map built from pairs whose keys are sets, after \<^verbatim>\<open>assign(K, v1)\<close> and
  then \<^verbatim>\<open>assign(K, v2)\<close> no operation has raised an error, \<^verbatim>\<open>get(K)\<close> returns \<open>v2\<close>
  whatever the default is, \<open>K\<close> occurs exactly once among \<^verbatim>\<open>keys()\<close>, and the only
  pair for \<open>K\<close> among the items is \<open>(K, v2)\<close>.
\<close>

theorem C8_assign_overwrites:
  assumes "\<forall>kv\<in>set kvs. distinct (fst kv)" and "distinct K"
  shows "\<exists>m m1 m2. SetTrieMap_init kvs = Inr m \<and> SetTrieMap_assign m K v1 = Inr m1
           \<and> SetTrieMap_assign m1 K v2 = Inr m2
           \<and> SetTrieMap_get m2 K dflt = Inr v2
           \<and> count_list (SetTrieMap_keys m2) (Key (set K)) = 1
           \<and> filter (\<lambda>it. \<exists>w. it = Pair (set K) w) (SetTrieMap_iter m2 None) = [Pair (set K) v2]"
proof -
  from SetTrieMap_init_correct[OF assms(1)]
  obtain m where m: "SetTrieMap_init kvs = Inr m" "SetTrieMap_inv m" by blast
  from SetTrieMap_assign_correct[OF m(2) assms(2), of v1 dflt]
  obtain m1 where m1: "SetTrieMap_assign m K v1 = Inr m1" "SetTrieMap_inv m1" by blast
  from SetTrieMap_assign_correct[OF m1(2) assms(2), of v2 dflt]
  obtain m2 where m2: "SetTrieMap_assign m1 K v2 = Inr m2" "SetTrieMap_inv m2"
    "mstored m2 = insert (sort K) (mstored m1)" "SetTrieMap_get m2 K dflt = Inr v2" by blast
  let ?e = "erase (mroot m2)"
  let ?xs = "mbelow (mroot m2)"
  have inv: "trie_inv ?e" using m2(2) by (simp add: SetTrieMap_inv_def)
  have fs: "map fst ?xs = below ?e" by (rule mbelow_fst)
  have dist: "distinct (map fst ?xs)"
    using sorted_below[OF inv] by (simp add: fs strict_sorted_iff)
  have "sort K \<in> set (map fst ?xs)" using m2(3) by (simp add: fs mstored_def)
  then obtain w0 where w0: "(sort K, w0) \<in> set ?xs" by auto
  have "SetTrieMap__get (mroot m2) (sort K) dflt = Inr w0" using get_item[OF inv w0] .
  then have "w0 = v2" using m2(4) by (simp add: SetTrieMap_get_def)
  then have mem: "(sort K, v2) \<in> set ?xs" using w0 by simp
  have one: "filter (\<lambda>x. fst x = sort K) ?xs = [(sort K, v2)]"
    using filter_unique[OF dist mem] by simp
  have keyeq: "(set (fst x) = set K) = (fst x = sort K)" if a: "x \<in> set ?xs" for x
  proof
    assume s: "set (fst x) = set K"
    have "fst x \<in> set (below ?e)" using a fs by (metis image_eqI set_map)
    then have "sorted_wrt (<) (fst x)" using below_paths[OF inv] by blast
    moreover have "sorted_wrt (<) (sort K)" using assms(2) by (rule sort_distinct(1))
    moreover have "set (fst x) = set (sort K)" using s by simp
    ultimately show "fst x = sort K"
      by (simp add: strict_sorted_iff sorted_distinct_set_unique)
  next
    assume "fst x = sort K"
    then show "set (fst x) = set K" by simp
  qed
  have sel: "filter (\<lambda>x. set (fst x) = set K) ?xs = [(sort K, v2)]"
  proof -
    have "filter (\<lambda>x. set (fst x) = set K) ?xs = filter (\<lambda>x. fst x = sort K) ?xs"
      by (rule filter_cong[OF refl]) (rule keyeq)
    then show ?thesis using one by simp
  qed
  have keys: "SetTrieMap_keys m2 = map (\<lambda>x. Key (set (fst x))) ?xs"
    by (simp add: SetTrieMap_keys_def miter_mbelow[OF m2(2)] yield_item_def case_prod_unfold)
  have items: "SetTrieMap_iter m2 None = map (\<lambda>x. Pair (set (fst x)) (snd x)) ?xs"
    by (simp add: miter_mbelow[OF m2(2)] yield_item_def case_prod_unfold)
  have "count_list (SetTrieMap_keys m2) (Key (set K))
      = length (filter (\<lambda>x. set (fst x) = set K) ?xs)"
    by (simp add: keys count_list_eq_length_filter filter_map comp_def eq_commute)
  then have c: "count_list (SetTrieMap_keys m2) (Key (set K)) = 1" using sel by simp
  have "filter (\<lambda>it. \<exists>w. it = Pair (set K) w) (SetTrieMap_iter m2 None)
      = map (\<lambda>x. Pair (set (fst x)) (snd x)) (filter (\<lambda>x. set (fst x) = set K) ?xs)"
    by (simp add: items filter_map comp_def)
  then have f: "filter (\<lambda>it. \<exists>w. it = Pair (set K) w) (SetTrieMap_iter m2 None) = [Pair (set K) v2]"
    using sel by simp
  show ?thesis using m(1) m1(1) m2(1,4) c f by blast
qed

theorem C8_assign_overwrites_witness:
  "distinct [1, 3::nat] \<and> distinct [2::nat] \<and> distinct [3, 1::nat]
   \<and> (\<exists>m m1 m2. SetTrieMap_init [([1, 3::nat], Some (10::int)), ([2], None)] = Inr m
           \<and> SetTrieMap_assign m [3, 1] (Some 20) = Inr m1
           \<and> SetTrieMap_assign m1 [3, 1] (Some 30) = Inr m2
           \<and> SetTrieMap_get m2 [3, 1] None = Inr (Some 30)
           \<and> count_list (SetTrieMap_keys m2) (Key (set [3, 1])) = 1
           \<and> filter (\<lambda>it. \<exists>w. it = Pair (set [3, 1]) w) (SetTrieMap_iter m2 None)
               = [Pair (set [3, 1]) (Some 30)])"
  using C8_assign_overwrites[of "[([1, 3::nat], Some (10::int)), ([2], None)]" "[3, 1]"
      "Some 20" "Some 30" None]
  by simp

text \<open>
  Claim C10: \<^verbatim>\<open>hassuperset\<close> with the empty query returns \<^verbatim>\<open>True\<close> on every \<^verbatim>\<open>SetTrie\<close>
  and every \<^verbatim>\<open>SetTrieMap\<close>, whatever the trie holds (the theorem is about all node
  structures, the empty one included).
\<close>

theorem C10_hassuperset_empty_query:
  "SetTrie_hassuperset t [] = Inr True \<and> SetTrieMap_hassuperset m [] = Inr True"
proof
  show "SetTrie_hassuperset t [] = Inr True"
    by (cases "root t") (simp add: SetTrie_hassuperset_def idx_gt_last_def)
  show "SetTrieMap_hassuperset m [] = Inr True"
    by (cases "mroot m") (simp add: SetTrieMap_hassuperset_def idx_gt_last_def)
qed

end
